theory Spec2Isabelle
  imports Main "HOL-Library.Sublist"
begin

section \<open>Python values and string methods used by the preprocessor\<close>

text \<open>
  The module under verification is \<^verbatim>\<open>nbhugoexporter/hugopreprocessor.py\<close>.  Its strings
  are modelled as \<^typ>\<open>string\<close>.  The module compares characters only with the dollar, the
  backslash, the underscore, the asterisk and the newline, all of them ASCII; the one
  operation that looks inside other characters is \<^verbatim>\<open>str.capitalize\<close>, whose case mapping
  outside ASCII is a parameter of the model (see \<open>capitalize\<close> below).
  The backslash cannot be written inside a string literal, so it has a name.
\<close>

abbreviation BSL :: char where
  "BSL \<equiv> CHR 0x5C"

datatype error = OSError | AttributeError

datatype pyval =
    PNone
  | PBool bool
  | PInt int
  | PStr string
  | PList "pyval list"
  | PDict "(string \<times> pyval) list"

text \<open>Truth value testing, as used by \<^verbatim>\<open>if latex:\<close> and by \<^verbatim>\<open>x or y\<close>.\<close>

fun truthy :: "pyval \<Rightarrow> bool" where
  "truthy PNone = False"
| "truthy (PBool b) = b"
| "truthy (PInt i) = (i \<noteq> 0)"
| "truthy (PStr s) = (s \<noteq> [])"
| "truthy (PList xs) = (xs \<noteq> [])"
| "truthy (PDict kvs) = (kvs \<noteq> [])"

definition py_or :: "pyval \<Rightarrow> pyval \<Rightarrow> pyval" where
  "py_or x y = (if truthy x then x else y)"

text \<open>\<^verbatim>\<open>d.get(k)\<close> and \<^verbatim>\<open>d.get(k, default)\<close> on a dictionary.\<close>

definition dict_get :: "(string \<rightharpoonup> pyval) \<Rightarrow> string \<Rightarrow> pyval" where
  "dict_get d k = (case d k of None \<Rightarrow> PNone | Some v \<Rightarrow> v)"

definition dict_get_default :: "(string \<rightharpoonup> pyval) \<Rightarrow> string \<Rightarrow> pyval \<Rightarrow> pyval" where
  "dict_get_default d k dflt = (case d k of None \<Rightarrow> dflt | Some v \<Rightarrow> v)"

text \<open>
  \<^verbatim>\<open>s.replace(old, new)\<close>: the occurrences of \<open>old\<close> are found scanning from the left,
  and the scan continues behind each occurrence found, so the occurrences replaced never
  overlap.  With an empty \<open>old\<close>, \<open>new\<close> is inserted before every character and at the end.
\<close>

function str_replace_scan :: "string \<Rightarrow> string \<Rightarrow> string \<Rightarrow> string" where
  "str_replace_scan [] old new = []"
| "str_replace_scan (c # cs) old new =
     (if prefix old (c # cs)
      then new @ str_replace_scan (drop (length old - 1) cs) old new
      else c # str_replace_scan cs old new)"
  by pat_completeness auto
termination
  by (relation "measure (\<lambda>(s, old, new). length s)") auto

definition str_replace :: "string \<Rightarrow> string \<Rightarrow> string \<Rightarrow> string" where
  "str_replace s old new =
     (if old = [] then new @ concat (map (\<lambda>c. c # new) s)
      else str_replace_scan s old new)"

text \<open>
  \<^verbatim>\<open>s.split(sep)\<close> for a non-empty separator (both call sites pass a non-empty literal;
  Python raises \<^verbatim>\<open>ValueError\<close> on an empty one): the pieces between the occurrences
  found by the same left-to-right scan.  The result is never empty, so the last branch
  of the \<open>case\<close> is not reached.
\<close>

function str_split :: "string \<Rightarrow> string \<Rightarrow> string list" where
  "str_split [] sep = [[]]"
| "str_split (c # cs) sep =
     (if prefix sep (c # cs)
      then [] # str_split (drop (length sep - 1) cs) sep
      else (case str_split cs sep of
              g # gs \<Rightarrow> (c # g) # gs
            | [] \<Rightarrow> [[c]]))"
  by pat_completeness auto
termination
  by (relation "measure (\<lambda>(s, sep). length s)") auto

text \<open>\<^verbatim>\<open>sep.join(xs)\<close>.\<close>

fun str_join :: "string \<Rightarrow> string list \<Rightarrow> string" where
  "str_join sep [] = []"
| "str_join sep [x] = x"
| "str_join sep (x # y # ys) = x @ sep @ str_join sep (y # ys)"

text \<open>
  What lies outside the module.  \<open>getmtime\<close> is \<^verbatim>\<open>os.path.getmtime\<close> (\<open>None\<close> where it
  raises); \<open>strftime_local\<close> is the time stamp converted to the local zone and printed
  with \<^verbatim>\<open>'%Y-%m-%dT%H:%M:%S%z'\<close>; \<open>unicode_capitalize\<close> is \<^verbatim>\<open>str.capitalize\<close> on a string
  that has a character outside ASCII, where the result is read from the tables of the
  Unicode character database (it can change the length of the string, and the lower case
  of a character can depend on its neighbours).
\<close>

record 'ts environment =
  getmtime :: "string \<Rightarrow> 'ts option"
  strftime_local :: "'ts \<Rightarrow> string"
  unicode_capitalize :: "string \<Rightarrow> string"

text \<open>
  \<^verbatim>\<open>s.capitalize()\<close>: the first character upper-cased, the rest lower-cased.  On a string
  of ASCII characters this maps \<^verbatim>\<open>a\<close> to \<^verbatim>\<open>z\<close> in the first place to \<^verbatim>\<open>A\<close> to \<^verbatim>\<open>Z\<close>, maps
  \<^verbatim>\<open>A\<close> to \<^verbatim>\<open>Z\<close> in the other places to \<^verbatim>\<open>a\<close> to \<^verbatim>\<open>z\<close>, and changes nothing else.
\<close>

definition is_ascii :: "char \<Rightarrow> bool" where
  "is_ascii c = ((of_char c :: nat) < 128)"

definition ascii_upper :: "char \<Rightarrow> char" where
  "ascii_upper c =
     (let n = (of_char c :: nat)
      in if of_char (CHR ''a'') \<le> n \<and> n \<le> of_char (CHR ''z'') then char_of (n - 32) else c)"

definition ascii_lower :: "char \<Rightarrow> char" where
  "ascii_lower c =
     (let n = (of_char c :: nat)
      in if of_char (CHR ''A'') \<le> n \<and> n \<le> of_char (CHR ''Z'') then char_of (n + 32) else c)"

definition capitalize :: "'ts environment \<Rightarrow> string \<Rightarrow> string" where
  "capitalize env s =
     (if list_all is_ascii s
      then (case s of [] \<Rightarrow> [] | c # cs \<Rightarrow> ascii_upper c # map ascii_lower cs)
      else unicode_capitalize env s)"

text \<open>
  \<^verbatim>\<open>os.path.join(a, b)\<close> on a POSIX system: an absolute second component replaces the
  first; otherwise a slash is put between them unless the first is empty or ends in one.
\<close>

definition path_join :: "string \<Rightarrow> string \<Rightarrow> string" where
  "path_join a b =
     (if b \<noteq> [] \<and> hd b = CHR ''/'' then b
      else if a = [] \<or> last a = CHR ''/'' then a @ b
      else a @ ''/'' @ b)"

section \<open>Regular expressions\<close>

text \<open>
  The fragment of \<^verbatim>\<open>re\<close> that the two patterns of the module use, all under
  \<^verbatim>\<open>re.DOTALL\<close>: \<^verbatim>\<open>^\<close>, a literal character, a negated character class
  (which matches a newline too), the lazy \<^verbatim>\<open>.*?\<close>, sequence, alternation and a
  capturing group.
\<close>

datatype rx =
    Bol
  | Lit char
  | NotIn "char list"
  | LazyAny
  | Seq rx rx
  | Alt rx rx
  | Grp rx

text \<open>
  A matcher state is the position reached, the input left, and the span captured by the
  group (its start and its text).  \<open>rx_match r st\<close> lists every way in which \<open>r\<close>
  matches at \<open>st\<close>, in the order in which a backtracking matcher tries them: the first
  alternative before the second, a shorter \<^verbatim>\<open>.*?\<close> before a longer one.  The head of the
  list is the match that \<^verbatim>\<open>re\<close> reports.
\<close>

type_synonym mstate = "nat \<times> string \<times> (nat \<times> string) option"

fun rx_match :: "rx \<Rightarrow> mstate \<Rightarrow> mstate list" where
  "rx_match Bol (p, s, g) = (if p = 0 then [(p, s, g)] else [])"
| "rx_match (Lit c) (p, s, g) =
     (case s of [] \<Rightarrow> [] | x # r \<Rightarrow> if x = c then [(Suc p, r, g)] else [])"
| "rx_match (NotIn cs) (p, s, g) =
     (case s of [] \<Rightarrow> [] | x # r \<Rightarrow> if x \<in> set cs then [] else [(Suc p, r, g)])"
| "rx_match LazyAny (p, s, g) = map (\<lambda>k. (p + k, drop k s, g)) [0..<Suc (length s)]"
| "rx_match (Seq a b) st = concat (map (rx_match b) (rx_match a st))"
| "rx_match (Alt a b) st = rx_match a st @ rx_match b st"
| "rx_match (Grp a) (p, s, g) =
     map (\<lambda>(p', s', g'). (p', s', Some (p, take (p' - p) s))) (rx_match a (p, s, g))"

text \<open>
  \<^verbatim>\<open>re.finditer\<close>: the leftmost match from the current position, then the scan goes on
  behind it; where nothing matches, one character further.  Each match is reported by
  the span of its group.  (Neither pattern of the module matches the empty string, so
  the rule of \<^verbatim>\<open>re\<close> for empty matches is not needed; a match that consumed nothing
  is stepped over.)
\<close>

function finditer_from :: "rx \<Rightarrow> nat \<Rightarrow> string \<Rightarrow> (nat \<times> string) list" where
  "finditer_from r p s =
     (case rx_match r (p, s, None) of
        [] \<Rightarrow> (case s of [] \<Rightarrow> [] | _ # t \<Rightarrow> finditer_from r (Suc p) t)
      | (p', s', g) # _ \<Rightarrow>
          (case g of None \<Rightarrow> (p, take (p' - p) s) | Some span \<Rightarrow> span) #
          (if length s' < length s then finditer_from r p' s'
           else (case s of [] \<Rightarrow> [] | _ # t \<Rightarrow> finditer_from r (Suc p) t)))"
  by pat_completeness auto
termination
  by (relation "measure (\<lambda>(r, p, s). length s)") auto

definition re_finditer :: "rx \<Rightarrow> string \<Rightarrow> (nat \<times> string) list" where
  "re_finditer r s = finditer_from r 0 s"

text \<open>\<^verbatim>\<open>re.findall\<close> with one group in the pattern: the text of the group of each match.\<close>

definition re_findall :: "rx \<Rightarrow> string \<Rightarrow> string list" where
  "re_findall r s = map snd (re_finditer r s)"

section \<open>The preprocessor\<close>

subsection \<open>\<^verbatim>\<open>_clean_latex\<close>\<close>

text \<open>The value of the local \<^verbatim>\<open>quoted_latex\<close> after its three assignments.\<close>

definition quoted_latex :: "string \<Rightarrow> string" where
  "quoted_latex latex =
     (let quoted = str_replace latex [BSL, BSL] (BSL # ''newline'');
          quoted = str_replace quoted ''_'' [BSL, CHR ''_''];
          quoted = str_replace quoted ''*'' [BSL, CHR ''*'']
      in quoted)"

definition clean_latex :: "string \<Rightarrow> string \<Rightarrow> string" where
  "clean_latex text latex = str_replace text latex (quoted_latex latex)"

subsection \<open>\<^verbatim>\<open>_extract_latex\<close>\<close>

text \<open>\<^verbatim>\<open>(?:^|[^\\])(\$\$.*?[^\\]\$\$)\<close>\<close>

definition display_math :: rx where
  "display_math =
     Seq (Alt Bol (NotIn [BSL]))
         (Grp (Seq (Lit (CHR ''$'')) (Seq (Lit (CHR ''$''))
              (Seq LazyAny (Seq (NotIn [BSL]) (Seq (Lit (CHR ''$'')) (Lit (CHR ''$''))))))))"

text \<open>\<^verbatim>\<open>[^\$\\](\$.*?[^\\]\$)\<close>\<close>

definition inline_math :: rx where
  "inline_math =
     Seq (NotIn [CHR ''$'', BSL])
         (Grp (Seq (Lit (CHR ''$'')) (Seq LazyAny (Seq (NotIn [BSL]) (Lit (CHR ''$''))))))"

definition extract_latex :: "string \<Rightarrow> string list" where
  "extract_latex markdown =
     re_findall display_math markdown @
     concat (map (re_findall inline_math) (str_split markdown ''\<newline>\<newline>''))"

subsection \<open>\<^verbatim>\<open>_time_format_hugo\<close>\<close>

definition time_format_hugo :: "'ts environment \<Rightarrow> 'ts \<Rightarrow> string" where
  "time_format_hugo env ts =
     (let out = strftime_local env ts
      in take (length out - 2) out @ '':'' @ drop (length out - 2) out)"

subsection \<open>\<^verbatim>\<open>preprocess_cell\<close>\<close>

record nb_output =
  output_type :: string
  data :: "(string \<rightharpoonup> pyval) option"

datatype cell =
    Markdown string
  | Code "nb_output list option"
  | Raw string

text \<open>The loop \<^verbatim>\<open>for latex in latex_segments: cell.source = ...\<close>.\<close>

fun clean_segments :: "string \<Rightarrow> string list \<Rightarrow> string" where
  "clean_segments source [] = source"
| "clean_segments source (latex # segs) = clean_segments (clean_latex source latex) segs"

text \<open>
  The body of the loop over the outputs of a code cell.  A payload that is true but not
  a string has no \<^verbatim>\<open>replace\<close>.
\<close>

definition clean_output :: "nb_output \<Rightarrow> error + nb_output" where
  "clean_output out =
     (let d = (case data out of None \<Rightarrow> Map.empty | Some d \<Rightarrow> d);
          latex = dict_get d ''text/latex''
      in if truthy latex
         then (case latex of
                 PStr l \<Rightarrow> Inr (out\<lparr>data := Some (d(''text/latex'' \<mapsto> PStr (clean_latex l l)))\<rparr>)
               | _ \<Rightarrow> Inl AttributeError)
         else Inr out)"

fun clean_outputs :: "nb_output list \<Rightarrow> error + nb_output list" where
  "clean_outputs [] = Inr []"
| "clean_outputs (out # outs) =
     (case clean_output out of
        Inl e \<Rightarrow> Inl e
      | Inr out' \<Rightarrow>
          (case clean_outputs outs of Inl e \<Rightarrow> Inl e | Inr outs' \<Rightarrow> Inr (out' # outs')))"

fun preprocess_cell :: "cell \<Rightarrow> error + cell" where
  "preprocess_cell (Markdown source) =
     Inr (Markdown (clean_segments source (extract_latex source)))"
| "preprocess_cell (Code None) = Inr (Code None)"
| "preprocess_cell (Code (Some outs)) =
     (case clean_outputs outs of Inl e \<Rightarrow> Inl e | Inr outs' \<Rightarrow> Inr (Code (Some outs')))"
| "preprocess_cell (Raw source) = Inr (Raw source)"

subsection \<open>\<^verbatim>\<open>preprocess\<close>\<close>

record notebook =
  hugo :: "(string \<rightharpoonup> pyval) option"
  cells :: "cell list"

record resources =
  path :: string
  name :: string

fun preprocess_cells :: "cell list \<Rightarrow> error + cell list" where
  "preprocess_cells [] = Inr []"
| "preprocess_cells (c # cs) =
     (case preprocess_cell c of
        Inl e \<Rightarrow> Inl e
      | Inr c' \<Rightarrow> (case preprocess_cells cs of Inl e \<Rightarrow> Inl e | Inr cs' \<Rightarrow> Inr (c' # cs')))"

definition default_title :: "'ts environment \<Rightarrow> string \<Rightarrow> string" where
  "default_title env nm = str_join '' '' (map (capitalize env) (str_split nm ''_''))"

definition preprocess ::
  "'ts environment \<Rightarrow> notebook \<Rightarrow> resources \<Rightarrow> error + (notebook \<times> resources)" where
  "preprocess env nb res =
     (let h = (case hugo nb of None \<Rightarrow> Map.empty | Some h \<Rightarrow> h);
          file_path = path_join (path res) (name res @ ''.ipynb'')
      in case getmtime env file_path of
           None \<Rightarrow> Inl OSError
         | Some ts \<Rightarrow>
             (let h = h(''date'' \<mapsto> py_or (dict_get h ''date'') (PStr (time_format_hugo env ts)));
                  title = default_title env (name res);
                  h = h(''title'' \<mapsto> py_or (dict_get h ''title'') (PStr title));
                  h = h(''draft'' \<mapsto> dict_get_default h ''draft'' (PBool True))
              in case preprocess_cells (cells nb) of
                   Inl e \<Rightarrow> Inl e
                 | Inr cs \<Rightarrow> Inr (nb\<lparr>hugo := Some h, cells := cs\<rparr>, res)))"

section \<open>Observations and examples\<close>

text \<open>
  The \<^verbatim>\<open>hugo\<close> mapping of a notebook (empty where the key is absent), and the value that
  a key of it has once \<open>preprocess\<close> has returned (\<open>None\<close> where it raises or the key is
  absent).
\<close>

definition hugo_of :: "notebook \<Rightarrow> (string \<rightharpoonup> pyval)" where
  "hugo_of nb = (case hugo nb of None \<Rightarrow> Map.empty | Some h \<Rightarrow> h)"

definition hugo_after :: "'ts environment \<Rightarrow> notebook \<Rightarrow> resources \<Rightarrow> string \<Rightarrow> pyval option" where
  "hugo_after env nb res k =
     (case preprocess env nb res of Inl e \<Rightarrow> None | Inr (nb', res') \<Rightarrow> hugo_of nb' k)"

text \<open>
  The title as the specification words it: split on the underscore, capitalise the first
  letter of each segment and nothing else, join with single spaces.  \<open>up\<close> is the
  capitalisation of the first letter.
\<close>

definition capitalize_first_only :: "(string \<Rightarrow> string) \<Rightarrow> string \<Rightarrow> string" where
  "capitalize_first_only up seg = up (take 1 seg) @ drop 1 seg"

definition title_as_specified :: "(string \<Rightarrow> string) \<Rightarrow> string \<Rightarrow> string" where
  "title_as_specified up nm =
     str_join '' '' (map (capitalize_first_only up) (str_split nm ''_''))"

text \<open>
  Concrete inputs: a file system where every file exists (the Unicode case mapping is not
  used on the ASCII names below), and some notebooks.
\<close>

definition ex_env :: "nat environment" where
  "ex_env = \<lparr>getmtime = (\<lambda>f. Some 0),
             strftime_local = (\<lambda>ts. ''2019-03-01T12:00:00+0100''),
             unicode_capitalize = (\<lambda>s. s)\<rparr>"

definition ex_res :: resources where
  "ex_res = \<lparr>path = ''posts'', name = ''my_first_post''\<rparr>"

definition ex_nb_set :: notebook where
  "ex_nb_set = \<lparr>hugo = Some [''date'' \<mapsto> PStr ''2018-07-04T09:00:00+00:00'',
                               ''title'' \<mapsto> PStr ''Fixed'', ''draft'' \<mapsto> PBool False],
               cells = []\<rparr>"

definition ex_nb_empty_date :: notebook where
  "ex_nb_empty_date = \<lparr>hugo = Some [''date'' \<mapsto> PStr [], ''title'' \<mapsto> PStr []], cells = []\<rparr>"

definition ex_output :: nb_output where
  "ex_output = \<lparr>output_type = ''execute_result'',
                data = Some [''text/latex'' \<mapsto> PStr ''$x_y$'']\<rparr>"

text \<open>The number of dollar signs in a text.\<close>

definition dollars :: "string \<Rightarrow> nat" where
  "dollars s = length (filter (\<lambda>c. c = CHR ''$'') s)"

text \<open>
  The positions at which \<open>latex\<close> occurs in \<open>text\<close>; whether no two of these occurrences
  overlap; whether position \<open>i\<close> of \<open>text\<close> lies inside one of them; and the characters of
  \<open>text\<close> that lie outside all of them, in their order.
\<close>

definition occurrences :: "string \<Rightarrow> string \<Rightarrow> nat list" where
  "occurrences text latex = filter (\<lambda>i. prefix latex (drop i text)) [0..<Suc (length text)]"

definition non_overlapping :: "string \<Rightarrow> string \<Rightarrow> bool" where
  "non_overlapping text latex =
     (\<forall>i \<in> set (occurrences text latex). \<forall>j \<in> set (occurrences text latex).
        i < j \<longrightarrow> i + length latex \<le> j)"

definition covered :: "string \<Rightarrow> string \<Rightarrow> nat \<Rightarrow> bool" where
  "covered text latex i =
     (\<exists>p \<in> set (occurrences text latex). p \<le> i \<and> i < p + length latex)"

definition outside :: "string \<Rightarrow> string \<Rightarrow> string" where
  "outside text latex =
     map (\<lambda>i. text ! i) (filter (\<lambda>i. \<not> covered text latex i) [0..<length text])"

text \<open>
  Two properties of a string read from the left, \<open>b\<close> telling whether the character
  before it is a backslash: every \<open>c\<close> stands directly behind a backslash; and every two
  adjacent backslashes are directly followed by a character of \<open>A\<close>.
\<close>

fun escaped_from :: "bool \<Rightarrow> char \<Rightarrow> string \<Rightarrow> bool" where
  "escaped_from b c [] = True"
| "escaped_from b c (x # xs) = ((x = c \<longrightarrow> b) \<and> escaped_from (x = BSL) c xs)"

fun pairs_followed :: "char set \<Rightarrow> bool \<Rightarrow> string \<Rightarrow> bool" where
  "pairs_followed A b [] = True"
| "pairs_followed A b (x # xs) =
     ((b \<and> x = BSL \<longrightarrow> xs \<noteq> [] \<and> hd xs \<in> A) \<and> pairs_followed A (x = BSL) xs)"

text \<open>Two LaTeX segments: one with all three special sequences, one with a quoted underscore.\<close>

definition ex_latex_all :: string where
  "ex_latex_all = ''$a_b*c'' @ [BSL, BSL] @ ''d$''"

definition ex_latex_quoted :: string where
  "ex_latex_quoted = ''$a'' @ [BSL] @ ''_b$''"

section \<open>Facts about the string methods\<close>

lemma str_split_not_Nil: "str_split s sep \<noteq> []"
  by (induction s sep rule: str_split.induct) (auto split: list.splits)

lemma str_join_Cons:
  "str_join sep (x # xs) = (if xs = [] then x else x @ sep @ str_join sep xs)"
  by (cases xs) auto

lemma str_join_push: "str_join sep ((c # g) # gs) = c # str_join sep (g # gs)"
  by (simp add: str_join_Cons)

lemma prefix_scan_step:
  assumes "prefix old (c # cs)" and "old \<noteq> []"
  shows "c # cs = old @ drop (length old - 1) cs"
proof -
  from assms obtain zs where z: "c # cs = old @ zs" by (auto simp: prefix_def)
  with assms(2) obtain old' where o: "old = c # old'" by (cases old) auto
  with z have "cs = old' @ zs" by simp
  then show ?thesis using o by simp
qed

lemma str_split_hit:
  "prefix sep (c # cs) \<Longrightarrow>
   str_split (c # cs) sep = [] # str_split (drop (length sep - 1) cs) sep"
  by simp

lemma str_split_miss:
  assumes "\<not> prefix sep (c # cs)"
  shows "str_split (c # cs) sep = (c # hd (str_split cs sep)) # tl (str_split cs sep)"
proof -
  obtain g gs where g: "str_split cs sep = g # gs"
    using str_split_not_Nil [of cs sep] by (cases "str_split cs sep") auto
  with assms show ?thesis by simp
qed

lemma str_join_str_split: "sep \<noteq> [] \<Longrightarrow> str_join sep (str_split s sep) = s"
proof (induction s sep rule: str_split.induct)
  case (1 sep)
  then show ?case by simp
next
  case (2 c cs sep)
  show ?case
  proof (cases "prefix sep (c # cs)")
    case True
    let ?rest = "drop (length sep - 1) cs"
    have ih: "str_join sep (str_split ?rest sep) = ?rest"
      using 2 True by simp
    have "str_join sep (str_split (c # cs) sep) = sep @ str_join sep (str_split ?rest sep)"
      using True by (simp add: str_join_Cons str_split_not_Nil)
    also have "\<dots> = sep @ ?rest" by (simp only: ih)
    also have "\<dots> = c # cs" by (rule prefix_scan_step [OF True "2.prems", symmetric])
    finally show ?thesis .
  next
    case False
    obtain g gs where g: "str_split cs sep = g # gs"
      using str_split_not_Nil [of cs sep] by (cases "str_split cs sep") auto
    with False 2 show ?thesis by (simp add: str_join_push del: str_join.simps)
  qed
qed

lemma str_replace_scan_split:
  "str_replace_scan s old new = str_join new (str_split s old)"
proof (induction s old rule: str_split.induct)
  case (1 sep)
  then show ?case by simp
next
  case (2 c cs sep)
  show ?case
  proof (cases "prefix sep (c # cs)")
    case True
    with 2 show ?thesis by (simp add: str_join_Cons str_split_not_Nil)
  next
    case False
    obtain g gs where g: "str_split cs sep = g # gs"
      using str_split_not_Nil [of cs sep] by (cases "str_split cs sep") auto
    with False 2 show ?thesis by (simp add: str_join_push del: str_join.simps)
  qed
qed

lemma str_replace_split:
  "old \<noteq> [] \<Longrightarrow> str_replace s old new = str_join new (str_split s old)"
  by (simp add: str_replace_def str_replace_scan_split)

lemma str_replace_self: "s \<noteq> [] \<Longrightarrow> str_replace s s new = new"
  by (cases s) (simp_all add: str_replace_def)

lemma str_replace_empty_empty: "str_replace s [] [] = s"
  by (induction s) (simp_all add: str_replace_def)

lemma str_replace_scan_absent:
  "\<not> sublist old s \<Longrightarrow> str_replace_scan s old new = s"
proof (induction s old new rule: str_replace_scan.induct)
  case (1 old new)
  then show ?case by simp
next
  case (2 c cs old new)
  from "2.prems" have np: "\<not> prefix old (c # cs)" and ns: "\<not> sublist old cs"
    by (simp_all add: sublist_Cons_right)
  have "str_replace_scan cs old new = cs"
    using "2.IH"(2) np ns by blast
  with np show ?case by simp
qed

lemma str_replace_absent: "\<not> sublist old s \<Longrightarrow> str_replace s old new = s"
  by (cases "old = []") (auto simp: str_replace_def str_replace_scan_absent)

lemma str_split_hd_prefix: "prefix (hd (str_split s sep)) s"
proof (induction s sep rule: str_split.induct)
  case (1 sep)
  then show ?case by simp
next
  case (2 c cs sep)
  show ?case
  proof (cases "prefix sep (c # cs)")
    case True
    then show ?thesis by simp
  next
    case False
    with 2 show ?thesis by (simp add: str_split_miss del: str_split.simps)
  qed
qed

lemma str_split_piece_no_sep:
  "sep \<noteq> [] \<Longrightarrow> g \<in> set (str_split s sep) \<Longrightarrow> \<not> sublist sep g"
proof (induction s sep arbitrary: g rule: str_split.induct)
  case (1 sep)
  then show ?case by simp
next
  case (2 c cs sep)
  show ?case
  proof (cases "prefix sep (c # cs)")
    case True
    have "g = [] \<or> g \<in> set (str_split (drop (length sep - 1) cs) sep)"
      using "2.prems"(2) True by simp
    then show ?thesis
    proof
      assume "g = []" with "2.prems"(1) show ?thesis by simp
    next
      assume "g \<in> set (str_split (drop (length sep - 1) cs) sep)"
      then show ?thesis using "2.IH"(1) True "2.prems"(1) by blast
    qed
  next
    case False
    let ?h = "hd (str_split cs sep)" and ?hs = "tl (str_split cs sep)"
    have hh: "str_split cs sep = ?h # ?hs"
      using str_split_not_Nil [of cs sep] by simp
    have "g = c # ?h \<or> g \<in> set ?hs"
      using "2.prems"(2) str_split_miss [OF False] by simp
    then show ?thesis
    proof
      assume "g \<in> set ?hs"
      then have "g \<in> set (str_split cs sep)" using hh by (metis list.set_intros(2))
      then show ?thesis using "2.IH"(2) False "2.prems"(1) by blast
    next
      assume gc: "g = c # ?h"
      have "?h \<in> set (str_split cs sep)" using hh by (metis list.set_intros(1))
      then have nh: "\<not> sublist sep ?h" using "2.IH"(2) False "2.prems"(1) by blast
      have "prefix (c # ?h) (c # cs)"
        using str_split_hd_prefix [of cs sep] by simp
      with False have "\<not> prefix sep (c # ?h)"
        using prefix_order.trans by blast
      with nh gc show ?thesis by (simp add: sublist_Cons_right)
    qed
  qed
qed

lemma str_split_piece_sublist: "g \<in> set (str_split s sep) \<Longrightarrow> sublist g s"
proof (induction s sep arbitrary: g rule: str_split.induct)
  case (1 sep)
  then show ?case by simp
next
  case (2 c cs sep)
  show ?case
  proof (cases "prefix sep (c # cs)")
    case True
    have "g = [] \<or> g \<in> set (str_split (drop (length sep - 1) cs) sep)"
      using "2.prems" True by simp
    then show ?thesis
    proof
      assume "g = []" then show ?thesis by simp
    next
      assume "g \<in> set (str_split (drop (length sep - 1) cs) sep)"
      then have "sublist g (drop (length sep - 1) cs)" using "2.IH"(1) True by blast
      then have "sublist g cs" using sublist_drop sublist_order.order.trans by blast
      then show ?thesis by (simp add: sublist_Cons_right)
    qed
  next
    case False
    let ?h = "hd (str_split cs sep)" and ?hs = "tl (str_split cs sep)"
    have hh: "str_split cs sep = ?h # ?hs"
      using str_split_not_Nil [of cs sep] by simp
    have "g = c # ?h \<or> g \<in> set ?hs"
      using "2.prems" str_split_miss [OF False] by simp
    then show ?thesis
    proof
      assume "g \<in> set ?hs"
      then have "g \<in> set (str_split cs sep)" using hh by (metis list.set_intros(2))
      then have "sublist g cs" using "2.IH"(2) False by blast
      then show ?thesis by (simp add: sublist_Cons_right)
    next
      assume "g = c # ?h"
      moreover have "prefix (c # ?h) (c # cs)"
        using str_split_hd_prefix [of cs sep] by simp
      ultimately show ?thesis by (simp add: prefix_imp_sublist)
    qed
  qed
qed

section \<open>Facts about the metadata defaults\<close>

lemma preprocess_Inr:
  assumes "getmtime env (path_join (path res) (name res @ ''.ipynb'')) = Some ts"
    and "preprocess_cells (cells nb) = Inr cs"
  shows "preprocess env nb res =
    Inr (nb\<lparr>hugo := Some ((hugo_of nb)
          (''date'' \<mapsto> py_or (dict_get (hugo_of nb) ''date'') (PStr (time_format_hugo env ts)),
           ''title'' \<mapsto> py_or (dict_get (hugo_of nb) ''title'') (PStr (default_title env (name res))),
           ''draft'' \<mapsto> dict_get_default (hugo_of nb) ''draft'' (PBool True))),
         cells := cs\<rparr>, res)"
  using assms
  by (simp add: preprocess_def hugo_of_def Let_def dict_get_def dict_get_default_def)

lemma hugo_after_eq:
  assumes "getmtime env (path_join (path res) (name res @ ''.ipynb'')) = Some ts"
    and "preprocess_cells (cells nb) = Inr cs"
  shows "hugo_after env nb res =
     (hugo_of nb)
          (''date'' \<mapsto> py_or (dict_get (hugo_of nb) ''date'') (PStr (time_format_hugo env ts)),
           ''title'' \<mapsto> py_or (dict_get (hugo_of nb) ''title'') (PStr (default_title env (name res))),
           ''draft'' \<mapsto> dict_get_default (hugo_of nb) ''draft'' (PBool True))"
  by (rule ext) (simp add: hugo_after_def preprocess_Inr [OF assms] hugo_of_def)

lemma ex_getmtime: "getmtime ex_env f = Some 0"
  by (simp add: ex_env_def)

lemma ex_time: "time_format_hugo ex_env (0::nat) = ''2019-03-01T12:00:00+01:00''"
  by (simp add: time_format_hugo_def ex_env_def)

lemma capitalize_ascii:
  "list_all is_ascii seg \<Longrightarrow>
   capitalize env seg = map ascii_upper (take 1 seg) @ map ascii_lower (drop 1 seg)"
  by (cases seg) (simp_all add: capitalize_def)

section \<open>Facts about the cells\<close>

lemma quoted_latex_Nil: "quoted_latex [] = []"
  by (simp add: quoted_latex_def str_replace_def)

lemma clean_latex_self: "clean_latex l l = quoted_latex l"
proof (cases "l = []")
  case True
  then show ?thesis by (simp add: clean_latex_def quoted_latex_Nil str_replace_def)
next
  case False
  then show ?thesis by (simp add: clean_latex_def str_replace_self)
qed

lemma clean_output_string:
  assumes "data out = Some d" and "d ''text/latex'' = Some (PStr p)"
  shows "clean_output out = Inr (out\<lparr>data := Some (d(''text/latex'' \<mapsto> PStr (quoted_latex p)))\<rparr>)"
proof (cases "p = []")
  case True
  have "d(''text/latex'' \<mapsto> PStr []) = d" using assms(2) True by (auto simp: fun_upd_idem_iff)
  then show ?thesis using assms True
    by (simp add: clean_output_def dict_get_def quoted_latex_Nil)
next
  case False
  then show ?thesis using assms
    by (simp add: clean_output_def dict_get_def clean_latex_self)
qed

lemma clean_output_no_latex:
  assumes "\<forall>d v. data out = Some d \<and> d ''text/latex'' = Some v \<longrightarrow> (\<exists>p. v = PStr p)"
  shows "\<exists>out'. clean_output out = Inr out'"
proof (cases "data out")
  case None
  then show ?thesis by (simp add: clean_output_def dict_get_def)
next
  case (Some d)
  show ?thesis
  proof (cases "d ''text/latex''")
    case None
    with Some show ?thesis by (simp add: clean_output_def dict_get_def)
  next
    case (Some v)
    with assms \<open>data out = Some d\<close> obtain p where "v = PStr p" by blast
    with Some \<open>data out = Some d\<close> show ?thesis
      using clean_output_string by blast
  qed
qed

lemma clean_outputs_map:
  "(\<forall>out \<in> set outs. \<exists>out'. clean_output out = Inr out') \<Longrightarrow>
   clean_outputs outs = Inr (map (\<lambda>out. projr (clean_output out)) outs)"
  by (induction outs) auto

lemma ex_quoted: "quoted_latex ''$x_y$'' = ''$x'' @ [BSL] @ ''_y$''"
  by code_simp

section \<open>Facts about the matcher\<close>

lemma rx_match_span:
  "(p', s', g') \<in> set (rx_match r (p, s, g)) \<Longrightarrow>
   \<exists>u. s = u @ s' \<and> p' = p + length u \<and>
       (g' = g \<or> (\<exists>u1 x u2. u = u1 @ x @ u2 \<and> g' = Some (p + length u1, x)))"
proof (induction r arbitrary: p s g p' s' g')
  case Bol
  then show ?case by (auto split: if_splits)
next
  case (Lit c)
  then show ?case by (auto split: list.splits if_splits)
next
  case (NotIn cs)
  then show ?case by (auto split: list.splits if_splits)
next
  case LazyAny
  then obtain k where k: "k \<le> length s" "p' = p + k" "s' = drop k s" "g' = g"
    by auto
  then have "s = take k s @ s'" "p' = p + length (take k s)" by simp_all
  with k(4) show ?case by blast
next
  case (Seq a b)
  from Seq.prems obtain pa sa ga where
    a: "(pa, sa, ga) \<in> set (rx_match a (p, s, g))" and
    b: "(p', s', g') \<in> set (rx_match b (pa, sa, ga))"
    by auto
  from Seq.IH(1) [OF a] obtain u where
    u: "s = u @ sa" "pa = p + length u"
       "ga = g \<or> (\<exists>u1 x u2. u = u1 @ x @ u2 \<and> ga = Some (p + length u1, x))"
    by blast
  from Seq.IH(2) [OF b] obtain v where
    v: "sa = v @ s'" "p' = pa + length v"
       "g' = ga \<or> (\<exists>v1 x v2. v = v1 @ x @ v2 \<and> g' = Some (pa + length v1, x))"
    by blast
  have s: "s = (u @ v) @ s'" and p: "p' = p + length (u @ v)"
    using u v by simp_all
  from v(3) have "g' = g \<or> (\<exists>w1 x w2. u @ v = w1 @ x @ w2 \<and> g' = Some (p + length w1, x))"
  proof
    assume eq: "g' = ga"
    from u(3) show ?thesis
    proof
      assume "ga = g" with eq show ?thesis by simp
    next
      assume "\<exists>u1 x u2. u = u1 @ x @ u2 \<and> ga = Some (p + length u1, x)"
      then obtain u1 x u2 where "u = u1 @ x @ u2" "ga = Some (p + length u1, x)" by blast
      with eq have "u @ v = u1 @ x @ (u2 @ v)" "g' = Some (p + length u1, x)" by simp_all
      then show ?thesis by blast
    qed
  next
    assume "\<exists>v1 x v2. v = v1 @ x @ v2 \<and> g' = Some (pa + length v1, x)"
    then obtain v1 x v2 where "v = v1 @ x @ v2" "g' = Some (pa + length v1, x)" by blast
    with u(2) have "u @ v = (u @ v1) @ x @ v2" "g' = Some (p + length (u @ v1), x)" by simp_all
    then show ?thesis by blast
  qed
  with s p show ?case by blast
next
  case (Alt a b)
  then show ?case by auto
next
  case (Grp a)
  from Grp.prems obtain ga where
    a: "(p', s', ga) \<in> set (rx_match a (p, s, g))" and g': "g' = Some (p, take (p' - p) s)"
    by auto
  from Grp.IH [OF a] obtain u where u: "s = u @ s'" "p' = p + length u" by blast
  then have "take (p' - p) s = u" by simp
  with g' have "u = [] @ u @ []" "g' = Some (p + length ([]::string), u)" by simp_all
  with u show ?case by blast
qed

lemma finditer_from_span:
  "(q, x) \<in> set (finditer_from r p s) \<Longrightarrow> \<exists>u1 u2. s = u1 @ x @ u2 \<and> q = p + length u1"
proof (induction r p s arbitrary: q x rule: finditer_from.induct)
  case (1 r p s)
  show ?case
  proof (cases "rx_match r (p, s, None)")
    case Nil
    show ?thesis
    proof (cases s)
      case Nil
      with \<open>rx_match r (p, s, None) = []\<close> "1.prems" show ?thesis by simp
    next
      case (Cons c t)
      with \<open>rx_match r (p, s, None) = []\<close> "1.prems"
      have "(q, x) \<in> set (finditer_from r (Suc p) t)" by simp
      from "1.IH"(1) [OF \<open>rx_match r (p, s, None) = []\<close> Cons this]
      obtain u1 u2 where "t = u1 @ x @ u2" "q = Suc p + length u1" by blast
      with Cons have "s = (c # u1) @ x @ u2" "q = p + length (c # u1)" by simp_all
      then show ?thesis by blast
    qed
  next
    case (Cons m ms)
    obtain p' s' g where m: "m = (p', s', g)" by (cases m) auto
    have mem: "(p', s', g) \<in> set (rx_match r (p, s, None))" using Cons m by simp
    from rx_match_span [OF mem] obtain u where
      u: "s = u @ s'" "p' = p + length u"
         "g = None \<or> (\<exists>u1 y u2. u = u1 @ y @ u2 \<and> g = Some (p + length u1, y))"
      by blast
    let ?span = "case g of None \<Rightarrow> (p, take (p' - p) s) | Some span \<Rightarrow> span"
    have span: "\<exists>u1 u2. s = u1 @ snd ?span @ u2 \<and> fst ?span = p + length u1"
    proof (cases g)
      case None
      with u have "s = [] @ snd ?span @ s'" "fst ?span = p + length ([]::string)" by simp_all
      then show ?thesis by blast
    next
      case (Some sp)
      with u(3) obtain u1 y u2 where y: "u = u1 @ y @ u2" "sp = (p + length u1, y)" by auto
      with u(1) Some have "s = u1 @ snd ?span @ (u2 @ s')" "fst ?span = p + length u1" by simp_all
      then show ?thesis by blast
    qed
    have fi: "finditer_from r p s = ?span #
          (if length s' < length s then finditer_from r p' s'
           else (case s of [] \<Rightarrow> [] | _ # t \<Rightarrow> finditer_from r (Suc p) t))"
      using Cons m by (subst finditer_from.simps) simp
    from "1.prems" fi consider
        (here) "(q, x) = ?span"
      | (after) "length s' < length s" "(q, x) \<in> set (finditer_from r p' s')"
      | (step) "\<not> length s' < length s" "(q, x) \<in> set (case s of [] \<Rightarrow> [] | _ # t \<Rightarrow> finditer_from r (Suc p) t)"
      by (auto split: if_splits)
    then show ?thesis
    proof cases
      case here
      then have "snd ?span = x" "fst ?span = q" by (metis snd_conv, metis fst_conv)
      with span show ?thesis by auto
    next
      case after
      from "1.IH"(2) [OF Cons m [symmetric] _ after(1) after(2)]
      obtain u1 u2 where "s' = u1 @ x @ u2" "q = p' + length u1" by auto
      with u have "s = (u @ u1) @ x @ u2" "q = p + length (u @ u1)" by simp_all
      then show ?thesis by blast
    next
      case step
      then obtain c t where ct: "s = c # t" and in_t: "(q, x) \<in> set (finditer_from r (Suc p) t)"
        by (cases s) auto
      from "1.IH"(3) [OF Cons m [symmetric] _ step(1) ct in_t]
      obtain u1 u2 where "t = u1 @ x @ u2" "q = Suc p + length u1" by auto
      with ct have "s = (c # u1) @ x @ u2" "q = p + length (c # u1)" by simp_all
      then show ?thesis by blast
    qed
  qed
qed

lemma inline_match_group_start:
  "(p', s', g') \<in> set (rx_match inline_math (p, s, g)) \<Longrightarrow> \<exists>x. g' = Some (Suc p, x)"
  by (auto simp: inline_math_def split: list.splits if_splits)

lemma finditer_inline_start:
  "(q, x) \<in> set (finditer_from inline_math p s) \<Longrightarrow> 1 \<le> q"
proof (induction "inline_math" p s arbitrary: q x rule: finditer_from.induct)
  case (1 p s)
  show ?case
  proof (cases "rx_match inline_math (p, s, None)")
    case Nil
    with "1.prems" "1.hyps"(1) show ?thesis
      by (cases s) auto
  next
    case (Cons m ms)
    obtain p' s' g where m: "m = (p', s', g)" by (cases m) auto
    have "(p', s', g) \<in> set (rx_match inline_math (p, s, None))" using Cons m by simp
    from inline_match_group_start [OF this] obtain y where g: "g = Some (Suc p, y)" by blast
    have fi: "finditer_from inline_math p s = (Suc p, y) #
          (if length s' < length s then finditer_from inline_math p' s'
           else (case s of [] \<Rightarrow> [] | _ # t \<Rightarrow> finditer_from inline_math (Suc p) t))"
      using Cons m g by (subst finditer_from.simps) simp
    from "1.prems" fi consider
        (here) "q = Suc p"
      | (after) "length s' < length s" "(q, x) \<in> set (finditer_from inline_math p' s')"
      | (step) "\<not> length s' < length s"
          "(q, x) \<in> set (case s of [] \<Rightarrow> [] | _ # t \<Rightarrow> finditer_from inline_math (Suc p) t)"
      by (auto split: if_splits)
    then show ?thesis
    proof cases
      case here
      then show ?thesis by simp
    next
      case after
      from "1.hyps"(2) [OF Cons m [symmetric] _ after(1) after(2)] show ?thesis by auto
    next
      case step
      then obtain c t where ct: "s = c # t"
        and in_t: "(q, x) \<in> set (finditer_from inline_math (Suc p) t)"
        by (cases s) auto
      from "1.hyps"(3) [OF Cons m [symmetric] _ step(1) ct in_t] show ?thesis by auto
    qed
  qed
qed

lemma re_findall_sublist: "x \<in> set (re_findall r s) \<Longrightarrow> sublist x s"
proof -
  assume "x \<in> set (re_findall r s)"
  then obtain q where "(q, x) \<in> set (finditer_from r 0 s)"
    by (auto simp: re_findall_def re_finditer_def)
  from finditer_from_span [OF this] show ?thesis
    by (auto simp: sublist_def)
qed

lemma ex_paragraph_blocks:
  "concat (map (re_findall inline_math)
     (str_split ''para one $a$\<newline>\<newline>para two $b$'' ''\<newline>\<newline>'')) = [''$a$'', ''$b$'']"
  by code_simp

lemma dollars_Cons: "dollars (x # xs) = (if x = CHR ''$'' then 1 else 0) + dollars xs"
  by (simp add: dollars_def)

lemma dollars_append: "dollars (xs @ ys) = dollars xs + dollars ys"
  by (simp add: dollars_def)

lemma dollars_sublist: "sublist xs ys \<Longrightarrow> dollars xs \<le> dollars ys"
  by (auto simp: sublist_def dollars_append)

lemma dollars_tl: "dollars (tl s) \<le> dollars s"
  by (cases s) (simp_all add: dollars_Cons)

lemma dollars_zero: "dollars s = 0 \<longleftrightarrow> CHR ''$'' \<notin> set s"
  by (induction s) (auto simp: dollars_def)

lemma lazy_close_inline_none:
  assumes "CHR ''$'' \<notin> set s"
  shows "rx_match (Seq LazyAny (Seq (NotIn cs) (Lit (CHR ''$'')))) (p, s, g) = []"
proof -
  have "rx_match (Seq (NotIn cs) (Lit (CHR ''$''))) (p + k, drop k s, g) = []" for k
  proof (cases "drop k s")
    case Nil
    then show ?thesis by simp
  next
    case (Cons d r)
    have "set r \<subseteq> set s" using Cons by (metis set_drop_subset set_subset_Cons subset_trans)
    with assms have "CHR ''$'' \<notin> set r" by blast
    with Cons show ?thesis by (cases r) auto
  qed
  then show ?thesis by (simp add: concat_eq_Nil_conv del: upt_Suc)
qed

lemma lazy_close_display_none:
  assumes "CHR ''$'' \<notin> set s"
  shows "rx_match (Seq LazyAny (Seq (NotIn cs) (Seq (Lit (CHR ''$'')) (Lit (CHR ''$''))))) (p, s, g) = []"
proof -
  have "rx_match (Seq (NotIn cs) (Seq (Lit (CHR ''$'')) (Lit (CHR ''$'')))) (p + k, drop k s, g) = []" for k
  proof (cases "drop k s")
    case Nil
    then show ?thesis by simp
  next
    case (Cons d r)
    have "set r \<subseteq> set s" using Cons by (metis set_drop_subset set_subset_Cons subset_trans)
    with assms have "CHR ''$'' \<notin> set r" by blast
    with Cons show ?thesis by (cases r) auto
  qed
  then show ?thesis by (simp add: concat_eq_Nil_conv del: upt_Suc)
qed

lemma inline_match_none:
  assumes "dollars (tl s) < 2"
  shows "rx_match inline_math (p, s, g) = []"
proof (cases s)
  case Nil
  then show ?thesis by (simp add: inline_math_def)
next
  case (Cons c r)
  show ?thesis
  proof (cases r)
    case Nil
    with Cons show ?thesis by (simp add: inline_math_def)
  next
    case (Cons x r2)
    show ?thesis
    proof (cases "x = CHR ''$''")
      case False
      with Cons \<open>s = c # r\<close> show ?thesis by (simp add: inline_math_def)
    next
      case True
      with assms Cons \<open>s = c # r\<close> have "dollars r2 = 0" by (simp add: dollars_Cons)
      then have no: "CHR ''$'' \<notin> set r2" by (simp add: dollars_zero)
      have "rx_match (Grp (Seq (Lit (CHR ''$'')) (Seq LazyAny (Seq (NotIn [BSL]) (Lit (CHR ''$''))))))
              (Suc p, CHR ''$'' # r2, g) = []"
        using lazy_close_inline_none [OF no, of "[BSL]" "Suc (Suc p)" g]
        by (simp del: rx_match.simps(4) rx_match.simps(5)
            add: rx_match.simps(5) [of "Lit (CHR ''$'')"])
      with True Cons \<open>s = c # r\<close> show ?thesis
        by (simp add: inline_math_def del: rx_match.simps(4,7))
    qed
  qed
qed

lemma display_inner_none:
  assumes "dollars s < 3"
  shows "rx_match (Grp (Seq (Lit (CHR ''$'')) (Seq (Lit (CHR ''$''))
              (Seq LazyAny (Seq (NotIn [BSL]) (Seq (Lit (CHR ''$'')) (Lit (CHR ''$''))))))))
           (p, s, g) = []"
proof (cases s)
  case Nil
  then show ?thesis by simp
next
  case (Cons x r)
  show ?thesis
  proof (cases r)
    case Nil
    with Cons show ?thesis by simp
  next
    case (Cons y r2)
    show ?thesis
    proof (cases "x = CHR ''$'' \<and> y = CHR ''$''")
      case False
      with Cons \<open>s = x # r\<close> show ?thesis by auto
    next
      case True
      with assms Cons \<open>s = x # r\<close> have "dollars r2 = 0" by (simp add: dollars_Cons)
      then have no: "CHR ''$'' \<notin> set r2" by (simp add: dollars_zero)
      show ?thesis
        using lazy_close_display_none [OF no, of "[BSL]" "Suc (Suc p)" g] True Cons \<open>s = x # r\<close>
        by (simp del: rx_match.simps(4) rx_match.simps(5)
            add: rx_match.simps(5) [of "Lit (CHR ''$'')"])
    qed
  qed
qed

lemma display_match_none:
  assumes "dollars s < 3"
  shows "rx_match display_math (p, s, g) = []"
proof -
  let ?G = "Grp (Seq (Lit (CHR ''$'')) (Seq (Lit (CHR ''$''))
              (Seq LazyAny (Seq (NotIn [BSL]) (Seq (Lit (CHR ''$'')) (Lit (CHR ''$'')))))))"
  have a: "rx_match ?G (p, s, g) = []" by (rule display_inner_none [OF assms])
  have b: "rx_match ?G (Suc p, tl s, g) = []"
    using assms dollars_tl [of s] by (intro display_inner_none) simp
  have "rx_match display_math (p, s, g) =
          concat (map (rx_match ?G) (rx_match Bol (p, s, g) @ rx_match (NotIn [BSL]) (p, s, g)))"
    by (simp only: display_math_def rx_match.simps(5,6))
  also have "\<dots> = []"
    using a b by (cases s) (auto simp del: rx_match.simps(4,5,7))
  finally show ?thesis .
qed

lemma finditer_inline_none:
  "dollars (tl s) < 2 \<Longrightarrow> finditer_from inline_math p s = []"
proof (induction s arbitrary: p)
  case Nil
  then show ?case by (subst finditer_from.simps) (simp add: inline_match_none)
next
  case (Cons c t)
  have "dollars (tl t) < 2" using Cons.prems dollars_tl [of t] by simp
  from Cons.IH [OF this] show ?case
    by (subst finditer_from.simps) (simp add: inline_match_none [OF Cons.prems])
qed

lemma finditer_display_none:
  "dollars s < 3 \<Longrightarrow> finditer_from display_math p s = []"
proof (induction s arbitrary: p)
  case Nil
  then show ?case by (subst finditer_from.simps) (simp add: display_match_none)
next
  case (Cons c t)
  have "dollars t < 3" using Cons.prems by (simp add: dollars_Cons split: if_splits)
  from Cons.IH [OF this] show ?case
    by (subst finditer_from.simps) (simp add: display_match_none [OF Cons.prems])
qed

lemma str_split_piece_tl: "b \<in> set (str_split s sep) \<Longrightarrow> sublist (tl b) (tl s)"
proof (cases s)
  case Nil
  assume "b \<in> set (str_split s sep)"
  with Nil show ?thesis by simp
next
  case (Cons c cs)
  assume b: "b \<in> set (str_split s sep)"
  have tl_sub: "sublist (tl x) x" for x :: string
    by (cases x) (simp_all add: sublist_Cons_right)
  show ?thesis
  proof (cases "prefix sep (c # cs)")
    case True
    from b Cons True have "b = [] \<or> b \<in> set (str_split (drop (length sep - 1) cs) sep)"
      by simp
    then show ?thesis
    proof
      assume "b = []" then show ?thesis by simp
    next
      assume "b \<in> set (str_split (drop (length sep - 1) cs) sep)"
      then have "sublist b (drop (length sep - 1) cs)" by (rule str_split_piece_sublist)
      then have "sublist b cs" using sublist_drop sublist_order.order.trans by blast
      with tl_sub [of b] have "sublist (tl b) cs" using sublist_order.order.trans by blast
      with Cons show ?thesis by simp
    qed
  next
    case False
    let ?h = "hd (str_split cs sep)" and ?hs = "tl (str_split cs sep)"
    have hh: "str_split cs sep = ?h # ?hs"
      using str_split_not_Nil [of cs sep] by simp
    from b Cons have "b = c # ?h \<or> b \<in> set ?hs"
      using str_split_miss [OF False] by simp
    then show ?thesis
    proof
      assume "b = c # ?h"
      then have "tl b = ?h" by simp
      with str_split_hd_prefix [of cs sep] Cons show ?thesis
        by (simp add: prefix_imp_sublist)
    next
      assume "b \<in> set ?hs"
      then have "b \<in> set (str_split cs sep)" using hh by (metis list.set_intros(2))
      then have "sublist b cs" by (rule str_split_piece_sublist)
      with tl_sub [of b] have "sublist (tl b) cs" using sublist_order.order.trans by blast
      with Cons show ?thesis by simp
    qed
  qed
qed

lemma extract_latex_few_dollars:
  assumes "dollars (tl text) < 2"
  shows "extract_latex text = []"
proof -
  have "dollars text < 3"
    using assms by (cases "text") (simp_all add: dollars_Cons dollars_def)
  then have d: "re_findall display_math text = []"
    by (simp add: re_findall_def re_finditer_def finditer_display_none del: finditer_from.simps)
  have "re_findall inline_math b = []" if "b \<in> set (str_split text ''\<newline>\<newline>'')" for b
  proof -
    from str_split_piece_tl [OF that] have "dollars (tl b) \<le> dollars (tl text)"
      by (rule dollars_sublist)
    with assms have "dollars (tl b) < 2" by simp
    then show ?thesis
      by (simp add: re_findall_def re_finditer_def finditer_inline_none del: finditer_from.simps)
  qed
  then have "concat (map (re_findall inline_math) (str_split text ''\<newline>\<newline>'')) = []"
    by (simp add: concat_eq_Nil_conv)
  with d show ?thesis by (simp add: extract_latex_def)
qed

lemma upt_split_at: "n < m \<Longrightarrow> [0..<m] = [0..<n] @ n # [Suc n..<m]"
proof -
  assume nm: "n < m"
  then have "[0..<n + (m - n)] = [0..<n] @ [n..<n + (m - n)]"
    by (intro upt_add_eq_append) simp
  with nm have "[0..<m] = [0..<n] @ [n..<m]" by simp
  moreover have "[n..<m] = n # [Suc n..<m]" using nm by (rule upt_conv_Cons)
  ultimately show ?thesis by (simp only:)
qed

lemma display_block_at_start:
  assumes "c \<noteq> BSL" and "CHR ''$'' \<notin> set (body @ [c])"
  shows "\<exists>ms. re_finditer display_math (''$$'' @ body @ c # ''$$'' @ rest)
               = (0, ''$$'' @ body @ c # ''$$'') # ms"
proof -
  let ?s = "''$$'' @ body @ c # ''$$'' @ rest"
  let ?t = "body @ c # ''$$'' @ rest"
  let ?n = "length body"
  define tail where "tail = Seq (NotIn [BSL]) (Seq (Lit (CHR ''$'')) (Lit (CHR ''$'')))"
  define inner where "inner = Seq (Lit (CHR ''$'')) (Seq (Lit (CHR ''$'')) (Seq LazyAny tail))"
  define f where "f = (\<lambda>k. rx_match tail (Suc (Suc 0) + k, drop k ?t, None))"
  have dm: "display_math = Seq (Alt Bol (NotIn [BSL])) (Grp inner)"
    by (simp add: display_math_def inner_def tail_def)
  have early: "f k = []" if "k < ?n" for k
  proof -
    from that obtain x xs where d: "drop k body = x # xs"
      by (cases "drop k body") auto
    then have dk: "drop k ?t = x # xs @ c # ''$$'' @ rest" using that by simp
    have "set xs \<subseteq> set body" using d by (metis set_drop_subset set_subset_Cons subset_trans)
    with assms(2) have "hd (xs @ c # ''$$'' @ rest) \<noteq> CHR ''$''"
      by (cases xs) auto
    then show ?thesis
      unfolding f_def tail_def dk by (cases "xs @ c # ''$$'' @ rest") auto
  qed
  have at: "f ?n = [(?n + 5, rest, None)]"
    using assms(1) by (simp add: f_def tail_def)
  have upt: "[0..<Suc (length ?t)] = [0..<?n] @ ?n # [Suc ?n..<Suc (length ?t)]"
    by (rule upt_split_at) simp
  have "concat (map f [0..<?n]) = []"
    using early by (simp add: concat_eq_Nil_conv)
  then have cf: "concat (map f [0..<Suc (length ?t)])
                  = (?n + 5, rest, None) # concat (map f [Suc ?n..<Suc (length ?t)])"
    unfolding upt by (simp add: at del: upt_Suc)
  have "rx_match inner (0, ?s, None) = concat (map f [0..<Suc (length ?t)])"
    unfolding inner_def f_def by (simp add: comp_def del: upt_Suc)
  then have inner: "rx_match inner (0, ?s, None)
                  = (?n + 5, rest, None) # concat (map f [Suc ?n..<Suc (length ?t)])"
    by (simp only: cf)
  have "?s = (''$$'' @ body @ c # ''$$'') @ rest" by simp
  moreover have "length (''$$'' @ body @ c # ''$$'') = ?n + 5" by simp
  ultimately have "take (?n + 5) ?s = ''$$'' @ body @ c # ''$$''"
    by (metis append_eq_conv_conj)
  then have "\<exists>A. rx_match (Grp inner) (0, ?s, None)
                  = (?n + 5, rest, Some (0, ''$$'' @ body @ c # ''$$'')) # A"
    by (simp only: rx_match.simps(7) inner) simp
  then obtain A where A: "rx_match (Grp inner) (0, ?s, None)
                  = (?n + 5, rest, Some (0, ''$$'' @ body @ c # ''$$'')) # A"
    by blast
  have "rx_match display_math (0, ?s, None) =
          rx_match (Grp inner) (0, ?s, None) @
          concat (map (rx_match (Grp inner)) (rx_match (NotIn [BSL]) (0, ?s, None)))"
    unfolding dm by (simp del: rx_match.simps(2,3,4,7))
  then have "\<exists>M. rx_match display_math (0, ?s, None)
                = (?n + 5, rest, Some (0, ''$$'' @ body @ c # ''$$'')) # M"
    by (simp only: A) simp
  then obtain M where M: "rx_match display_math (0, ?s, None)
                = (?n + 5, rest, Some (0, ''$$'' @ body @ c # ''$$'')) # M"
    by blast
  define s where "s = ?s"
  have M': "rx_match display_math (0, s, None)
                = (?n + 5, rest, Some (0, ''$$'' @ body @ c # ''$$'')) # M"
    using M by (simp only: s_def)
  have "\<exists>ms. finditer_from display_math 0 s = (0, ''$$'' @ body @ c # ''$$'') # ms"
    by (subst finditer_from.simps) (simp add: M' del: finditer_from.simps)
  then show ?thesis by (simp only: re_finditer_def s_def)
qed

lemma extract_display_at_start:
  assumes "c \<noteq> BSL" and "CHR ''$'' \<notin> set (body @ [c])"
  shows "\<exists>ms. extract_latex (''$$'' @ body @ c # ''$$'' @ rest) = (''$$'' @ body @ c # ''$$'') # ms"
proof -
  from display_block_at_start [OF assms, of rest] obtain ms where
    "re_finditer display_math (''$$'' @ body @ c # ''$$'' @ rest)
       = (0, ''$$'' @ body @ c # ''$$'') # ms" by blast
  then show ?thesis
    by (simp add: extract_latex_def re_findall_def del: str_split.simps)
qed

lemma extract_latex_spans:
  "extract_latex markdown =
      map snd (re_finditer display_math markdown) @
      concat (map (\<lambda>b. map snd (re_finditer inline_math b)) (str_split markdown ''\<newline>\<newline>''))"
proof -
  have "re_findall inline_math = (\<lambda>b. map snd (re_finditer inline_math b))"
    by (rule ext) (simp only: re_findall_def)
  then show ?thesis by (simp only: extract_latex_def re_findall_def)
qed

lemma extract_latex_inline_at_start:
  assumes "CHR ''$'' \<notin> set body" and "CHR ''$'' \<notin> set rest"
  shows "extract_latex (CHR ''$'' # body @ CHR ''$'' # rest) = []"
proof -
  have "dollars body = 0" "dollars rest = 0" using assms by (simp_all add: dollars_zero)
  then have "dollars (tl (CHR ''$'' # body @ CHR ''$'' # rest)) < 2"
    by (simp add: dollars_append dollars_Cons)
  then show ?thesis by (rule extract_latex_few_dollars)
qed

lemma ex_inline_finditer: "re_finditer inline_math ''Inline $a_b$ math'' = [(7, ''$a_b$'')]"
  by code_simp

section \<open>Facts about escaping\<close>

lemma escaped_from_decomp:
  "escaped_from b c s \<Longrightarrow> s = us @ c # vs \<Longrightarrow> (if us = [] then b else last us = BSL)"
proof (induction s arbitrary: b us)
  case Nil
  then show ?case by simp
next
  case (Cons x xs)
  show ?case
  proof (cases us)
    case Nil
    with Cons.prems show ?thesis by simp
  next
    case (Cons u us')
    with Cons.prems have xs: "xs = us' @ c # vs" and ux: "u = x" by simp_all
    from Cons.prems(1) have "escaped_from (x = BSL) c xs" by simp
    from Cons.IH [OF this xs] show ?thesis using Cons ux by (auto split: if_splits)
  qed
qed

lemma pairs_followed_decomp:
  "pairs_followed A b s \<Longrightarrow> s = us @ BSL # BSL # vs \<Longrightarrow> vs \<noteq> [] \<and> hd vs \<in> A"
proof (induction s arbitrary: b us)
  case Nil
  then show ?case by simp
next
  case (Cons x xs)
  show ?case
  proof (cases us)
    case Nil
    with Cons.prems show ?thesis by simp
  next
    case (Cons u us')
    with Cons.prems have xs: "xs = us' @ BSL # BSL # vs" by simp
    from Cons.prems(1) have "pairs_followed A (x = BSL) xs" by simp
    from Cons.IH [OF this xs] show ?thesis .
  qed
qed

lemma str_replace_scan_single:
  "str_replace_scan s [c] new = concat (map (\<lambda>x. if x = c then new else [x]) s)"
  by (induction s) auto

lemma str_replace_single:
  "str_replace s [c] new = concat (map (\<lambda>x. if x = c then new else [x]) s)"
  by (simp add: str_replace_def str_replace_scan_single)

lemma newline_step_no_pairs:
  "(b \<longrightarrow> s = [] \<or> hd s \<noteq> BSL) \<Longrightarrow>
   pairs_followed {} b (str_replace_scan s [BSL, BSL] (BSL # ''newline''))"
proof (induction s "[BSL, BSL]" "BSL # ''newline''" arbitrary: b rule: str_replace_scan.induct)
  case 1
  then show ?case by simp
next
  case (2 c cs)
  show ?case
  proof (cases "prefix [BSL, BSL] (c # cs)")
    case True
    then obtain cs' where c: "c = BSL" and cs: "cs = BSL # cs'"
      by (cases cs) auto
    from "2.prems" c have nb: "\<not> b" by simp
    have "pairs_followed {} False (str_replace_scan cs' [BSL, BSL] (BSL # ''newline''))"
      using "2.hyps"(1) [OF True, of False] by (simp add: cs)
    then show ?thesis unfolding c cs using nb by simp
  next
    case False
    have next_ok: "c = BSL \<longrightarrow> cs = [] \<or> hd cs \<noteq> BSL"
      using False by (cases cs) auto
    have "pairs_followed {} (c = BSL) (str_replace_scan cs [BSL, BSL] (BSL # ''newline''))"
      using "2.hyps"(2) [OF False next_ok] .
    with False "2.prems" show ?thesis by auto
  qed
qed

lemma underscore_step:
  "pairs_followed {} b s \<Longrightarrow>
   pairs_followed {CHR ''_''} b (concat (map (\<lambda>x. if x = CHR ''_'' then [BSL, CHR ''_''] else [x]) s))"
  by (induction s arbitrary: b) auto

lemma quote_step_escapes:
  "c \<noteq> BSL \<Longrightarrow> escaped_from b c (concat (map (\<lambda>x. if x = c then [BSL, c] else [x]) s))"
  by (induction s arbitrary: b) auto

lemma asterisk_step_pairs:
  "pairs_followed {CHR ''_''} b s \<Longrightarrow>
   pairs_followed {CHR ''_'', CHR ''*''} b
     (concat (map (\<lambda>x. if x = CHR ''*'' then [BSL, CHR ''*''] else [x]) s))"
proof (induction s arbitrary: b)
  case Nil
  then show ?case by simp
next
  case (Cons x xs)
  then show ?case by (cases xs) auto
qed

lemma asterisk_step_keeps_escaped:
  "escaped_from b (CHR ''_'') s \<Longrightarrow>
   escaped_from b (CHR ''_'') (concat (map (\<lambda>x. if x = CHR ''*'' then [BSL, CHR ''*''] else [x]) s))"
  by (induction s arbitrary: b) auto

lemma quoted_latex_steps:
  "quoted_latex L =
     concat (map (\<lambda>x. if x = CHR ''*'' then [BSL, CHR ''*''] else [x])
       (concat (map (\<lambda>x. if x = CHR ''_'' then [BSL, CHR ''_''] else [x])
          (str_replace_scan L [BSL, BSL] (BSL # ''newline''))))) "
  by (simp add: quoted_latex_def Let_def str_replace_single) (simp add: str_replace_def)

lemma quoted_latex_underscore: "escaped_from False (CHR ''_'') (quoted_latex L)"
  unfolding quoted_latex_steps
  by (rule asterisk_step_keeps_escaped) (rule quote_step_escapes, simp)

lemma quoted_latex_asterisk: "escaped_from False (CHR ''*'') (quoted_latex L)"
  unfolding quoted_latex_steps by (rule quote_step_escapes) simp

lemma quoted_latex_pairs: "pairs_followed {CHR ''_'', CHR ''*''} False (quoted_latex L)"
  unfolding quoted_latex_steps
  by (rule asterisk_step_pairs, rule underscore_step, rule newline_step_no_pairs) simp

lemma occurrences_iff:
  "p \<in> set (occurrences text latex) \<longleftrightarrow> p \<le> length text \<and> prefix latex (drop p text)"
  by (auto simp: occurrences_def less_Suc_eq_le simp del: upt_Suc)

lemma occurrences_Nil: "latex \<noteq> [] \<Longrightarrow> occurrences [] latex = []"
  by (simp add: occurrences_def)

lemma occurrences_Cons:
  "occurrences (c # cs) latex =
     (if prefix latex (c # cs) then [0] else []) @ map Suc (occurrences cs latex)"
proof -
  let ?P = "\<lambda>i. prefix latex (drop i (c # cs))"
  have "[0..<Suc (Suc (length cs))] = 0 # [Suc 0..<Suc (Suc (length cs))]"
    by (rule upt_conv_Cons) simp
  also have "[Suc 0..<Suc (Suc (length cs))] = map Suc [0..<Suc (length cs)]"
    by (rule map_Suc_upt [symmetric])
  finally have "occurrences (c # cs) latex = filter ?P (0 # map Suc [0..<Suc (length cs)])"
    by (simp only: occurrences_def length_Cons)
  also have "\<dots> = (if prefix latex (c # cs) then [0] else []) @
                    map Suc (filter (\<lambda>i. prefix latex (drop i cs)) [0..<Suc (length cs)])"
    by (simp add: filter_map comp_def del: upt_Suc)
  finally show ?thesis by (simp only: occurrences_def)
qed

lemma occurrences_drop:
  "latex \<noteq> [] \<Longrightarrow>
   filter (\<lambda>i. k \<le> i) (occurrences s latex) = map (\<lambda>j. j + k) (occurrences (drop k s) latex)"
proof (induction s arbitrary: k)
  case Nil
  then show ?case by (simp add: occurrences_Nil)
next
  case (Cons c cs)
  show ?case
  proof (cases k)
    case 0
    then show ?thesis by simp
  next
    case (Suc k')
    have "filter (\<lambda>i. Suc k' \<le> i) (occurrences (c # cs) latex)
            = map Suc (filter (\<lambda>i. k' \<le> i) (occurrences cs latex))"
      by (simp add: occurrences_Cons filter_map comp_def)
    also have "\<dots> = map Suc (map (\<lambda>j. j + k') (occurrences (drop k' cs) latex))"
      by (simp only: Cons.IH [OF Cons.prems])
    finally show ?thesis using Suc by (simp add: comp_def)
  qed
qed

lemma non_overlapping_drop:
  assumes "latex \<noteq> []" and "non_overlapping s latex"
  shows "non_overlapping (drop k s) latex"
proof -
  have sub: "j + k \<in> set (occurrences s latex)" if "j \<in> set (occurrences (drop k s) latex)" for j
  proof -
    from that have "j + k \<in> set (map (\<lambda>j. j + k) (occurrences (drop k s) latex))" by simp
    then have "j + k \<in> set (filter (\<lambda>i. k \<le> i) (occurrences s latex))"
      by (simp only: occurrences_drop [OF assms(1)])
    then show ?thesis by simp
  qed
  show ?thesis
    unfolding non_overlapping_def
  proof (intro ballI impI)
    fix i j
    assume "i \<in> set (occurrences (drop k s) latex)" "j \<in> set (occurrences (drop k s) latex)" "i < j"
    then have "i + k \<in> set (occurrences s latex)" "j + k \<in> set (occurrences s latex)" "i + k < j + k"
      using sub by simp_all
    with assms(2) have "i + k + length latex \<le> j + k"
      unfolding non_overlapping_def by blast
    then show "i + length latex \<le> j" by simp
  qed
qed

lemma length_str_split_non_overlapping:
  "latex \<noteq> [] \<Longrightarrow> non_overlapping s latex \<Longrightarrow>
   length (str_split s latex) = Suc (length (occurrences s latex))"
proof (induction s latex rule: str_split.induct)
  case (1 sep)
  then show ?case by (simp add: occurrences_Nil)
next
  case (2 c cs sep)
  show ?case
  proof (cases "prefix sep (c # cs)")
    case True
    let ?k = "length sep - 1"
    have no: "non_overlapping (drop ?k cs) sep"
      using non_overlapping_drop [OF "2.prems", of "Suc ?k"] by simp
    have ih: "length (str_split (drop ?k cs) sep) = Suc (length (occurrences (drop ?k cs) sep))"
      using "2.IH"(1) [OF True "2.prems"(1) no] .
    have zero: "0 \<in> set (occurrences (c # cs) sep)"
      using True by (simp add: occurrences_Cons)
    have far: "?k \<le> j" if "j \<in> set (occurrences cs sep)" for j
    proof -
      from that have "Suc j \<in> set (occurrences (c # cs) sep)" by (simp add: occurrences_Cons)
      with zero "2.prems"(2) have "0 + length sep \<le> Suc j"
        unfolding non_overlapping_def by blast
      then show ?thesis by simp
    qed
    have "occurrences cs sep = filter (\<lambda>i. ?k \<le> i) (occurrences cs sep)"
      using far by (simp add: filter_id_conv)
    also have "\<dots> = map (\<lambda>j. j + ?k) (occurrences (drop ?k cs) sep)"
      by (rule occurrences_drop [OF "2.prems"(1)])
    finally have "length (occurrences cs sep) = length (occurrences (drop ?k cs) sep)"
      by (metis length_map)
    with ih True show ?thesis by (simp add: occurrences_Cons)
  next
    case False
    have no: "non_overlapping cs sep"
      using non_overlapping_drop [OF "2.prems", of 1] by simp
    have ih: "length (str_split cs sep) = Suc (length (occurrences cs sep))"
      using "2.IH"(2) [OF False "2.prems"(1) no] .
    have "length (str_split (c # cs) sep) = length (str_split cs sep)"
      using str_split_miss [OF False] str_split_not_Nil [of cs sep]
      by (cases "str_split cs sep") simp_all
    with ih False show ?thesis by (simp add: occurrences_Cons)
  qed
qed

lemma ex_twice:
  "occurrences ''a $x_1$ b $x_1$'' ''$x_1$'' = [2, 10]"
  "str_split ''a $x_1$ b $x_1$'' ''$x_1$'' = [''a '', '' b '', '''']"
  "quoted_latex ''$x_1$'' = ''$x'' @ [BSL] @ ''_1$''"
  by code_simp+

lemma subseq_filter_mono:
  assumes "\<And>x. x \<in> set xs \<Longrightarrow> P x \<Longrightarrow> Q x"
  shows "subseq (filter P xs) (filter Q xs)"
proof -
  have "filter P xs = filter P (filter Q xs)"
    using assms by (induction xs) auto
  then show ?thesis by (metis subseq_filter_left)
qed

lemma covered_drop: "covered (drop k s) latex i \<Longrightarrow> covered s latex (i + k)"
proof -
  assume "covered (drop k s) latex i"
  then obtain p where p: "p \<le> length (drop k s)" "prefix latex (drop p (drop k s))"
    "p \<le> i" "i < p + length latex"
    by (auto simp: covered_def occurrences_iff)
  show ?thesis
  proof (cases "k \<le> length s")
    case True
    with p have "p + k \<le> length s" "prefix latex (drop (p + k) s)" by (simp_all add: add.commute)
    with p(3,4) show ?thesis
      unfolding covered_def occurrences_iff
      by (intro bexI [of _ "p + k"]) (simp_all add: occurrences_iff)
  next
    case False
    with p have "p = 0" "prefix latex []" by simp_all
    with p(4) show ?thesis by simp
  qed
qed

lemma outside_from:
  "subseq (map (\<lambda>i. s ! i) (filter (\<lambda>i. \<not> covered s latex i) [k..<length s]))
          (outside (drop k s) latex)"
proof -
  let ?n = "length s - k"
  have upt: "[k..<length s] = map (\<lambda>i. i + k) [0..<?n]"
    by (cases "k \<le> length s") (simp_all add: map_add_upt)
  have nth: "s ! (i + k) = drop k s ! i" if "i < ?n" for i
  proof -
    from that have "k \<le> length s" by simp
    then show ?thesis by (simp add: add.commute)
  qed
  have "map (\<lambda>i. s ! i) (filter (\<lambda>i. \<not> covered s latex i) [k..<length s])
          = map (\<lambda>i. s ! (i + k)) (filter (\<lambda>i. \<not> covered s latex (i + k)) [0..<?n])"
    unfolding upt by (simp add: filter_map comp_def)
  also have "\<dots> = map (\<lambda>i. drop k s ! i) (filter (\<lambda>i. \<not> covered s latex (i + k)) [0..<?n])"
    by (rule map_cong [OF refl]) (simp add: nth)
  finally have "map (\<lambda>i. s ! i) (filter (\<lambda>i. \<not> covered s latex i) [k..<length s])
          = map (\<lambda>i. drop k s ! i) (filter (\<lambda>i. \<not> covered s latex (i + k)) [0..<?n])" .
  moreover have "subseq (filter (\<lambda>i. \<not> covered s latex (i + k)) [0..<?n])
                        (filter (\<lambda>i. \<not> covered (drop k s) latex i) [0..<?n])"
    by (rule subseq_filter_mono) (use covered_drop in blast)
  ultimately show ?thesis
    unfolding outside_def by (simp add: subseq_map)
qed

lemma subseq_concat_str_join: "subseq (concat gs) (str_join sep gs)"
proof (induction sep gs rule: str_join.induct)
  case (3 sep x y ys)
  have "subseq (concat (y # ys)) (sep @ str_join sep (y # ys))"
    using 3 by (rule list_emb_append2)
  then have "subseq (x @ concat (y # ys)) (x @ sep @ str_join sep (y # ys))"
    by (simp only: subseq_append')
  then show ?case by simp
qed simp_all

lemma outside_subseq_pieces:
  "latex \<noteq> [] \<Longrightarrow> subseq (outside s latex) (concat (str_split s latex))"
proof (induction s latex rule: str_split.induct)
  case (1 sep)
  then show ?case by (simp add: outside_def)
next
  case (2 c cs sep)
  let ?s = "c # cs"
  let ?N = "\<lambda>i. \<not> covered ?s sep i"
  show ?case
  proof (cases "prefix sep ?s")
    case True
    let ?k = "length sep"
    have k: "?k \<le> length ?s" using True by (rule prefix_length_le)
    have zero: "0 \<in> set (occurrences ?s sep)" using True by (simp add: occurrences_Cons)
    have "[0..<?k + (length ?s - ?k)] = [0..<?k] @ [?k..<?k + (length ?s - ?k)]"
      by (rule upt_add_eq_append) simp
    then have "[0..<length ?s] = [0..<?k] @ [?k..<length ?s]"
      using k by simp
    then have "filter ?N [0..<length ?s] = filter ?N [0..<?k] @ filter ?N [?k..<length ?s]"
      by (metis filter_append)
    moreover have "filter ?N [0..<?k] = []"
      using zero by (auto simp: filter_empty_conv covered_def)
    ultimately have "outside ?s sep = map (\<lambda>i. ?s ! i) (filter ?N [?k..<length ?s])"
      unfolding outside_def by simp
    then have "subseq (outside ?s sep) (outside (drop ?k ?s) sep)"
      using outside_from [of ?s sep ?k] by simp
    moreover have "drop ?k ?s = drop (?k - 1) cs"
      using "2.prems" by (cases sep) simp_all
    moreover have "subseq (outside (drop (?k - 1) cs) sep) (concat (str_split (drop (?k - 1) cs) sep))"
      using "2.IH"(1) [OF True "2.prems"] .
    ultimately have "subseq (outside ?s sep) (concat (str_split (drop (?k - 1) cs) sep))"
      using subseq_order.trans by metis
    with True show ?thesis by simp
  next
    case False
    have "[0..<length ?s] = 0 # [Suc 0..<length ?s]"
      by (rule upt_conv_Cons) simp
    then have "[0..<length ?s] = [0] @ [1..<length ?s]"
      by (simp del: upt_Suc)
    then have "filter ?N [0..<length ?s] = filter ?N [0] @ filter ?N [1..<length ?s]"
      by (metis filter_append)
    then have o: "outside ?s sep =
        map (\<lambda>i. ?s ! i) (filter ?N [0]) @ map (\<lambda>i. ?s ! i) (filter ?N [1..<length ?s])"
      unfolding outside_def by simp
    have a: "subseq (map (\<lambda>i. ?s ! i) (filter ?N [0])) [c]"
      by simp
    have "subseq (map (\<lambda>i. ?s ! i) (filter ?N [1..<length ?s])) (outside (drop 1 ?s) sep)"
      by (rule outside_from)
    moreover have "subseq (outside cs sep) (concat (str_split cs sep))"
      using "2.IH"(2) [OF False "2.prems"] .
    ultimately have b: "subseq (map (\<lambda>i. ?s ! i) (filter ?N [1..<length ?s]))
                               (concat (str_split cs sep))"
      using subseq_order.trans by fastforce
    have "subseq (outside ?s sep) ([c] @ concat (str_split cs sep))"
      unfolding o using a b by (rule list_emb_append_mono)
    moreover have "concat (str_split ?s sep) = c # concat (str_split cs sep)"
      using str_split_miss [OF False] str_split_not_Nil [of cs sep]
      by (cases "str_split cs sep") simp_all
    ultimately show ?thesis by simp
  qed
qed

lemma outside_empty_latex: "outside text [] = text"
proof -
  have "filter (\<lambda>i. \<not> covered text [] i) [0..<length text] = [0..<length text]"
    by (simp add: covered_def filter_id_conv)
  then show ?thesis unfolding outside_def by (simp add: map_nth)
qed

lemma ex_escape:
  "clean_latex ''text $a_b$ end'' ''$a_b$'' = ''text $a'' @ [BSL] @ ''_b$ end''"
  "outside ''text $a_b$ end'' ''$a_b$'' = ''text  end''"
  "sublist ''$z$'' ''text $a_b$ end'' = False"
  "str_split ''text $a_b$ end'' ''$a_b$'' = [''text '', '' end'']"
  by code_simp+

lemma newline_step_no_double:
  "\<not> sublist [BSL, BSL] (str_replace_scan latex [BSL, BSL] (BSL # ''newline''))"
proof
  assume "sublist [BSL, BSL] (str_replace_scan latex [BSL, BSL] (BSL # ''newline''))"
  then obtain us vs where
    "str_replace_scan latex [BSL, BSL] (BSL # ''newline'') = us @ BSL # BSL # vs"
    by (auto simp: sublist_def)
  moreover have "pairs_followed {} False (str_replace_scan latex [BSL, BSL] (BSL # ''newline''))"
    by (rule newline_step_no_pairs) simp
  ultimately show False using pairs_followed_decomp by blast
qed

lemma quote_steps_merge:
  "concat (map (\<lambda>x. if x = CHR ''*'' then [BSL, CHR ''*''] else [x])
     (concat (map (\<lambda>x. if x = CHR ''_'' then [BSL, CHR ''_''] else [x]) s)))
   = concat (map (\<lambda>x. if x = CHR ''_'' \<or> x = CHR ''*'' then [BSL, x] else [x]) s)"
  by (induction s) auto

lemma quoted_latex_chars:
  "quoted_latex latex =
     concat (map (\<lambda>x. if x = CHR ''_'' \<or> x = CHR ''*'' then [BSL, x] else [x])
       (str_join (BSL # ''newline'') (str_split latex [BSL, BSL])))"
  by (simp only: quoted_latex_steps quote_steps_merge str_replace_scan_split)

lemma quoted_pair_origin:
  assumes "concat (map (\<lambda>x. if x = CHR ''_'' \<or> x = CHR ''*'' then [BSL, x] else [x]) s)
             = us @ BSL # BSL # vs"
    and "\<not> sublist [BSL, BSL] s"
  shows "\<exists>c vs'. vs = c # vs' \<and> (c = CHR ''_'' \<or> c = CHR ''*'') \<and> sublist [BSL, c] s"
  using assms
proof (induction s arbitrary: us)
  case Nil
  then show ?case by simp
next
  case (Cons x xs)
  let ?esc = "\<lambda>x. if x = CHR ''_'' \<or> x = CHR ''*'' then [BSL, x] else [x]"
  let ?R = "concat (map ?esc xs)"
  from Cons.prems(2) have nxs: "\<not> sublist [BSL, BSL] xs" and npre: "\<not> prefix [BSL, BSL] (x # xs)"
    by (simp_all add: sublist_Cons_right)
  have up: "\<exists>c vs'. vs = c # vs' \<and> (c = CHR ''_'' \<or> c = CHR ''*'') \<and> sublist [BSL, c] (x # xs)"
    if "?R = us' @ BSL # BSL # vs" for us'
  proof -
    from Cons.IH [OF that nxs] obtain c vs' where
      "vs = c # vs'" "c = CHR ''_'' \<or> c = CHR ''*''" "sublist [BSL, c] xs" by blast
    then show ?thesis by (auto simp: sublist_Cons_right)
  qed
  show ?case
  proof (cases "x = CHR ''_'' \<or> x = CHR ''*''")
    case True
    with Cons.prems(1) have eq: "BSL # x # ?R = us @ BSL # BSL # vs" by auto
    from True have xb: "x \<noteq> BSL" by auto
    show ?thesis
    proof (cases us)
      case Nil
      with eq xb show ?thesis by simp
    next
      case (Cons u us')
      with eq have eq2: "x # ?R = us' @ BSL # BSL # vs" by simp
      show ?thesis
      proof (cases us')
        case Nil
        with eq2 xb show ?thesis by simp
      next
        case (Cons u2 us'')
        with eq2 have "?R = us'' @ BSL # BSL # vs" by simp
        then show ?thesis by (rule up)
      qed
    qed
  next
    case False
    with Cons.prems(1) have eq: "x # ?R = us @ BSL # BSL # vs" by auto
    show ?thesis
    proof (cases us)
      case (Cons u us')
      with eq have "?R = us' @ BSL # BSL # vs" by simp
      then show ?thesis by (rule up)
    next
      case Nil
      with eq have x: "x = BSL" and R: "?R = BSL # vs" by simp_all
      show ?thesis
      proof (cases xs)
        case Nil
        with R show ?thesis by simp
      next
        case (Cons y ys)
        show ?thesis
        proof (cases "y = CHR ''_'' \<or> y = CHR ''*''")
          case True
          with R Cons have "vs = y # concat (map ?esc ys)" by auto
          moreover have "sublist [BSL, y] (x # xs)"
            unfolding x Cons by (rule prefix_imp_sublist) simp
          ultimately show ?thesis using True by blast
        next
          case False
          with R Cons have "y = BSL" by auto
          with x Cons npre show ?thesis by simp
        qed
      qed
    qed
  qed
qed

lemma newline_step_pair_origin:
  assumes "c = CHR ''_'' \<or> c = CHR ''*''"
  shows "sublist [BSL, c] (str_replace_scan s [BSL, BSL] (BSL # ''newline'')) \<Longrightarrow>
         sublist [BSL, c] s"
proof (induction s "[BSL, BSL]" "BSL # ''newline''" rule: str_replace_scan.induct)
  case 1
  then show ?case by simp
next
  case (2 x xs)
  show ?case
  proof (cases "prefix [BSL, BSL] (x # xs)")
    case True
    then obtain xs' where x: "x = BSL" and xs: "xs = BSL # xs'"
      by (cases xs) auto
    from "2.prems" assms
    have "sublist [BSL, c] (str_replace_scan xs' [BSL, BSL] (BSL # ''newline''))"
      unfolding x xs by (auto simp: sublist_Cons_right)
    then have "sublist [BSL, c] xs'"
      using "2.hyps"(1) [OF True] by (simp add: xs)
    then show ?thesis unfolding x xs by (simp add: sublist_Cons_right)
  next
    case False
    let ?R = "str_replace_scan xs [BSL, BSL] (BSL # ''newline'')"
    have res: "str_replace_scan (x # xs) [BSL, BSL] (BSL # ''newline'') = x # ?R"
      by (simp only: str_replace_scan.simps False if_False)
    from "2.prems" have "sublist [BSL, c] (x # ?R)" by (simp only: res)
    then have "prefix [BSL, c] (x # ?R) \<or> sublist [BSL, c] ?R"
      by (simp only: sublist_Cons_right)
    then show ?thesis
    proof
      assume "sublist [BSL, c] ?R"
      then have "sublist [BSL, c] xs" using "2.hyps"(2) [OF False] by simp
      then show ?thesis by (simp add: sublist_Cons_right)
    next
      assume p: "prefix [BSL, c] (x # ?R)"
      then have x: "x = BSL" and R: "prefix [c] ?R" by auto
      have "prefix [c] xs"
      proof (cases xs)
        case Nil
        with R show ?thesis by simp
      next
        case (Cons y ys)
        show ?thesis
        proof (cases "prefix [BSL, BSL] (y # ys)")
          case True
          have "str_replace_scan (y # ys) [BSL, BSL] (BSL # ''newline'') =
                  (BSL # ''newline'') @
                  str_replace_scan (drop (length [BSL, BSL] - 1) ys) [BSL, BSL] (BSL # ''newline'')"
            by (simp only: str_replace_scan.simps True if_True)
          with R have "prefix [c] (BSL # ''newline'' @
                  str_replace_scan (drop (length [BSL, BSL] - 1) ys) [BSL, BSL] (BSL # ''newline''))"
            unfolding Cons by simp
          then have "c = BSL" by simp
          with assms show ?thesis by auto
        next
          case False
          have "str_replace_scan (y # ys) [BSL, BSL] (BSL # ''newline'') =
                  y # str_replace_scan ys [BSL, BSL] (BSL # ''newline'')"
            by (simp only: str_replace_scan.simps False if_False)
          with R have "prefix [c] (y # str_replace_scan ys [BSL, BSL] (BSL # ''newline''))"
            unfolding Cons by simp
          then have "c = y" by simp
          then show ?thesis unfolding Cons by simp
        qed
      qed
      then have "prefix [BSL, c] (x # xs)" using x by simp
      then show ?thesis by (rule prefix_imp_sublist)
    qed
  qed
qed

lemma quoted_latex_pair_origin:
  assumes "quoted_latex latex = us @ BSL # BSL # vs"
  shows "\<exists>c vs'. vs = c # vs' \<and> (c = CHR ''_'' \<or> c = CHR ''*'') \<and> sublist [BSL, c] latex"
proof -
  let ?s1 = "str_replace_scan latex [BSL, BSL] (BSL # ''newline'')"
  have "concat (map (\<lambda>x. if x = CHR ''_'' \<or> x = CHR ''*'' then [BSL, x] else [x]) ?s1)
          = us @ BSL # BSL # vs"
    using assms by (simp only: quoted_latex_steps quote_steps_merge)
  from quoted_pair_origin [OF this newline_step_no_double]
  obtain c vs' where c: "vs = c # vs'" "c = CHR ''_'' \<or> c = CHR ''*''" "sublist [BSL, c] ?s1"
    by blast
  from newline_step_pair_origin [OF c(2,3)] c(1,2) show ?thesis by blast
qed

lemma ex_quoted_all:
  "quoted_latex ex_latex_all = (''$a'' @ [BSL]) @ CHR ''_'' # (''b'' @ [BSL] @ ''*c'' @ [BSL] @ ''newlined$'')"
  "quoted_latex ex_latex_quoted = ''$a'' @ BSL # BSL # ''_b$''"
  "clean_latex ex_latex_quoted ex_latex_quoted = ''$a'' @ BSL # BSL # ''_b$''"
  "clean_latex (''x '' @ ex_latex_all) ex_latex_all
     = ''x $a'' @ [BSL] @ ''_b'' @ [BSL] @ ''*c'' @ [BSL] @ ''newlined$''"
  "sublist [BSL, BSL] (''$a'' @ BSL # BSL # ''_b$'') = True"
  "sublist [BSL, CHR ''_''] ex_latex_all = False"
  "sublist [BSL, CHR ''*''] ex_latex_all = False"
  "str_split ex_latex_all [BSL, BSL] = [''$a_b*c'', ''d$'']"
  by code_simp+

section \<open>Extraction of LaTeX segments\<close>

text \<open>
  Claim C1.  For the text \<^verbatim>\<open>Display:\n$$x_1 + x_2$$\nmore\<close> the display pass finds
  \<^verbatim>\<open>$$x_1 + x_2$$\<close>, and the inline pass, run over the same text, reports a second
  segment \<^verbatim>\<open>$$x_1 + x_2$\<close>: its match starts at the newline before the block, so its
  group opens at the first dollar of the opening \<^verbatim>\<open>$$\<close> (position 9) and closes at the
  first dollar of the closing \<^verbatim>\<open>$$\<close>.  The list returned has two elements, not one.
\<close>

theorem extract_latex_display_block:
  "extract_latex ''Display:\<newline>$$x_1 + x_2$$\<newline>more'' = [''$$x_1 + x_2$$'', ''$$x_1 + x_2$'']
   \<and> re_finditer display_math ''Display:\<newline>$$x_1 + x_2$$\<newline>more'' = [(9, ''$$x_1 + x_2$$'')]
   \<and> re_finditer inline_math ''Display:\<newline>$$x_1 + x_2$$\<newline>more'' = [(9, ''$$x_1 + x_2$'')]"
  by code_simp

text \<open>
  Claim C5.  Inline math never spans a blank-line paragraph break.  The text is split at
  the blank lines (the pieces joined by blank lines are the text again), every piece is
  searched on its own and the results are concatenated in the order of the pieces: so
  every segment of the inline pass lies inside one piece and contains no blank line.  For
  \<^verbatim>\<open>para one $a$\n\npara two $b$\<close> the result is \<^verbatim>\<open>["$a$", "$b$"]\<close>.
\<close>

theorem inline_math_within_paragraph:
  "(\<forall>x \<in> set (concat (map (re_findall inline_math) (str_split markdown ''\<newline>\<newline>''))).
       \<not> sublist ''\<newline>\<newline>'' x
       \<and> (\<exists>b \<in> set (str_split markdown ''\<newline>\<newline>''). sublist x b))
   \<and> extract_latex markdown =
       re_findall display_math markdown @
       concat (map (re_findall inline_math) (str_split markdown ''\<newline>\<newline>''))
   \<and> str_join ''\<newline>\<newline>'' (str_split markdown ''\<newline>\<newline>'') = markdown
   \<and> extract_latex ''para one $a$\<newline>\<newline>para two $b$'' = [''$a$'', ''$b$'']"
proof -
  let ?sep = "''\<newline>\<newline>''"
  have a: "\<not> sublist ?sep x \<and> (\<exists>b \<in> set (str_split markdown ?sep). sublist x b)"
    if "x \<in> set (concat (map (re_findall inline_math) (str_split markdown ?sep)))" for x
  proof -
    from that obtain b where b: "b \<in> set (str_split markdown ?sep)"
      and x: "x \<in> set (re_findall inline_math b)"
      by auto
    have xb: "sublist x b" by (rule re_findall_sublist [OF x])
    have "\<not> sublist ?sep b" by (rule str_split_piece_no_sep [OF _ b]) simp
    with xb have "\<not> sublist ?sep x" using sublist_order.order.trans by blast
    with xb b show ?thesis by blast
  qed
  have b: "extract_latex markdown =
       re_findall display_math markdown @
       concat (map (re_findall inline_math) (str_split markdown ?sep))"
    by (simp only: extract_latex_def)
  have c: "str_join ?sep (str_split markdown ?sep) = markdown"
    by (rule str_join_str_split) simp
  have d: "extract_latex ''para one $a$\<newline>\<newline>para two $b$'' = [''$a$'', ''$b$'']"
    by code_simp
  from a b c d show ?thesis by blast
qed

theorem inline_math_within_paragraph_witness:
  "\<not> sublist ''\<newline>\<newline>'' ''$a$'' \<and> \<not> sublist ''\<newline>\<newline>'' ''$b$''
   \<and> extract_latex ''para one $a$\<newline>\<newline>para two $b$'' = [''$a$'', ''$b$'']"
proof -
  note t = inline_math_within_paragraph
    [of "''para one $a$\<newline>\<newline>para two $b$''", unfolded ex_paragraph_blocks]
  from t have 1: "\<forall>x \<in> set [''$a$'', ''$b$'']. \<not> sublist ''\<newline>\<newline>'' x \<and>
      (\<exists>b \<in> set (str_split ''para one $a$\<newline>\<newline>para two $b$'' ''\<newline>\<newline>''). sublist x b)"
    by (rule conjunct1)
  from t have 2: "extract_latex ''para one $a$\<newline>\<newline>para two $b$'' = [''$a$'', ''$b$'']"
    by blast
  from 1 have "\<not> sublist ''\<newline>\<newline>'' ''$a$''" "\<not> sublist ''\<newline>\<newline>'' ''$b$''"
    by (simp_all del: str_split.simps)
  with 2 show ?thesis by blast
qed

text \<open>
  Claim C10.  The inline pass never reports a segment that starts at position 0.  The
  result of \<open>extract_latex\<close> is the texts of the display matches followed by the texts of
  the inline matches of each piece; every inline match in a text starts at position 1 or
  later (and is the text at the position reported), since the inline pattern begins with
  a character before the dollar.  So a text that opens with \<^verbatim>\<open>$\<close>, has one more \<^verbatim>\<open>$\<close>
  and no other, yields no segment at all, as \<^verbatim>\<open>$a_b$ end\<close> does, while
  \<^verbatim>\<open>x$a_b$ end\<close> yields \<^verbatim>\<open>$a_b$\<close>.  Display math at position 0 is still found: for a
  text that starts with \<^verbatim>\<open>$$\<close>, a content without a dollar that does not end in a
  backslash, and \<^verbatim>\<open>$$\<close>, the first display match is that block, at position 0, and it
  is the first segment that \<open>extract_latex\<close> returns; \<^verbatim>\<open>$$x$$\<close> yields \<^verbatim>\<open>$$x$$\<close>.
\<close>

theorem inline_math_needs_preceding_character:
  "extract_latex markdown =
      map snd (re_finditer display_math markdown) @
      concat (map (\<lambda>b. map snd (re_finditer inline_math b)) (str_split markdown ''\<newline>\<newline>''))
   \<and> (\<forall>(q, x) \<in> set (re_finditer inline_math block).
         1 \<le> q \<and> take (length x) (drop q block) = x)
   \<and> (CHR ''$'' \<notin> set body \<and> CHR ''$'' \<notin> set rest \<longrightarrow>
         extract_latex (CHR ''$'' # body @ CHR ''$'' # rest) = [])
   \<and> (c \<noteq> BSL \<and> CHR ''$'' \<notin> set (body @ [c]) \<longrightarrow>
         (\<exists>ms. re_finditer display_math (''$$'' @ body @ c # ''$$'' @ rest)
                 = (0, ''$$'' @ body @ c # ''$$'') # ms)
         \<and> (\<exists>ms. extract_latex (''$$'' @ body @ c # ''$$'' @ rest)
                 = (''$$'' @ body @ c # ''$$'') # ms))
   \<and> extract_latex ''$a_b$ end'' = []
   \<and> extract_latex ''x$a_b$ end'' = [''$a_b$'']
   \<and> extract_latex ''$$x$$'' = [''$$x$$'']"
proof -
  have a: "1 \<le> q \<and> take (length x) (drop q block) = x"
    if "(q, x) \<in> set (re_finditer inline_math block)" for q x
  proof -
    from that have m: "(q, x) \<in> set (finditer_from inline_math 0 block)"
      by (simp add: re_finditer_def del: finditer_from.simps)
    from finditer_from_span [OF m] obtain u1 u2 where "block = u1 @ x @ u2" "q = length u1"
      by auto
    then have "take (length x) (drop q block) = x" by simp
    with finditer_inline_start [OF m] show ?thesis by simp
  qed
  have b: "extract_latex ''$a_b$ end'' = []" by code_simp
  have b': "extract_latex ''x$a_b$ end'' = [''$a_b$'']" by code_simp
  have b'': "extract_latex ''$$x$$'' = [''$$x$$'']" by code_simp
  from a have a': "\<forall>(q, x) \<in> set (re_finditer inline_math block).
         1 \<le> q \<and> take (length x) (drop q block) = x"
    by blast
  show ?thesis
    using extract_latex_spans [of markdown] a' extract_latex_inline_at_start [of body rest]
      display_block_at_start [of c body rest] extract_display_at_start [of c body rest] b b' b''
    by (intro conjI impI) blast+
qed

theorem inline_math_needs_preceding_character_witness:
  "re_finditer inline_math ''Inline $a_b$ math'' = [(7, ''$a_b$'')]
   \<and> (1::nat) \<le> 7 \<and> take 5 (drop 7 ''Inline $a_b$ math'') = ''$a_b$''
   \<and> extract_latex ''$a_b$ end'' = []
   \<and> hd (re_finditer display_math ''$$x$$'') = (0, ''$$x$$'')
   \<and> hd (extract_latex ''$$x$$'') = ''$$x$$''"
proof -
  note t1 = inline_math_needs_preceding_character
    [of _ "''Inline $a_b$ math''" "''a_b''" "'' end''" "CHR ''x''"]
  note t2 = inline_math_needs_preceding_character
    [of _ "[]" "[]" "[]" "CHR ''x''"]
  from t1 have "\<forall>(q, x) \<in> set (re_finditer inline_math ''Inline $a_b$ math'').
         1 \<le> q \<and> take (length x) (drop q ''Inline $a_b$ math'') = x"
    by blast
  then have f1: "(1::nat) \<le> 7" and f2: "take 5 (drop 7 ''Inline $a_b$ math'') = ''$a_b$''"
    unfolding ex_inline_finditer by simp_all
  have "CHR ''$'' \<notin> set ''a_b'' \<and> CHR ''$'' \<notin> set '' end''" by simp
  with t1 have "extract_latex (CHR ''$'' # ''a_b'' @ CHR ''$'' # '' end'') = []" by blast
  then have f3: "extract_latex ''$a_b$ end'' = []" by simp
  have h: "CHR ''x'' \<noteq> BSL \<and> CHR ''$'' \<notin> set ([] @ [CHR ''x''])" by simp
  with t2 have "(\<exists>ms. re_finditer display_math (''$$'' @ [] @ CHR ''x'' # ''$$'' @ [])
                 = (0, ''$$'' @ [] @ CHR ''x'' # ''$$'') # ms)"
    and "(\<exists>ms. extract_latex (''$$'' @ [] @ CHR ''x'' # ''$$'' @ [])
                 = (''$$'' @ [] @ CHR ''x'' # ''$$'') # ms)"
    by blast+
  then have f4: "hd (re_finditer display_math ''$$x$$'') = (0, ''$$x$$'')"
    and f5: "hd (extract_latex ''$$x$$'') = ''$$x$$''"
    by auto
  show ?thesis by (intro conjI) (rule ex_inline_finditer f1 f2 f3 f4 f5)+
qed

section \<open>Escaping\<close>

text \<open>
  Claim C2, amended.  For every text and every non-empty LaTeX string, the result of
  \<open>clean_latex\<close> is the text with each occurrence of the string that the left-to-right
  scan finds replaced by \<open>quoted_latex\<close> of it.  That replacement is the LaTeX string with
  every double backslash that a left-to-right scan finds replaced by \<^verbatim>\<open>\newline\<close>, and
  then one backslash put before every underscore and every asterisk, nothing else
  changed.  So in it every underscore and every asterisk stands directly behind a
  backslash; two adjacent backslashes occur in it only directly before an underscore or
  an asterisk that the LaTeX string already had behind a backslash; and if the LaTeX
  string has no underscore and no asterisk behind a backslash, the replacement has no
  two adjacent backslashes.
\<close>

theorem escaped_span_properties:
  "(latex \<noteq> [] \<longrightarrow>
      clean_latex text latex = str_join (quoted_latex latex) (str_split text latex))
   \<and> quoted_latex latex =
       concat (map (\<lambda>x. if x = CHR ''_'' \<or> x = CHR ''*'' then [BSL, x] else [x])
         (str_join (BSL # ''newline'') (str_split latex [BSL, BSL])))
   \<and> (\<forall>us c vs. quoted_latex latex = us @ c # vs \<and> (c = CHR ''_'' \<or> c = CHR ''*'') \<longrightarrow>
          us \<noteq> [] \<and> last us = BSL)
   \<and> (\<forall>us vs. quoted_latex latex = us @ BSL # BSL # vs \<longrightarrow>
          (\<exists>c vs'. vs = c # vs' \<and> (c = CHR ''_'' \<or> c = CHR ''*'') \<and> sublist [BSL, c] latex))
   \<and> (\<not> sublist [BSL, CHR ''_''] latex \<and> \<not> sublist [BSL, CHR ''*''] latex \<longrightarrow>
          \<not> sublist [BSL, BSL] (quoted_latex latex))"
proof -
  have a: "latex \<noteq> [] \<longrightarrow>
      clean_latex text latex = str_join (quoted_latex latex) (str_split text latex)"
    by (simp add: clean_latex_def str_replace_split)
  have b: "us \<noteq> [] \<and> last us = BSL"
    if "quoted_latex latex = us @ c # vs" "c = CHR ''_'' \<or> c = CHR ''*''" for us c vs
  proof -
    from that(2) have "escaped_from False c (quoted_latex latex)"
      using quoted_latex_underscore quoted_latex_asterisk by blast
    from escaped_from_decomp [OF this that(1)] show ?thesis
      by (auto split: if_splits)
  qed
  have d: "\<exists>c vs'. vs = c # vs' \<and> (c = CHR ''_'' \<or> c = CHR ''*'') \<and> sublist [BSL, c] latex"
    if "quoted_latex latex = us @ BSL # BSL # vs" for us vs
    using that by (rule quoted_latex_pair_origin)
  have e: "\<not> sublist [BSL, BSL] (quoted_latex latex)"
    if "\<not> sublist [BSL, CHR ''_''] latex \<and> \<not> sublist [BSL, CHR ''*''] latex"
  proof
    assume "sublist [BSL, BSL] (quoted_latex latex)"
    then obtain us vs where "quoted_latex latex = us @ BSL # BSL # vs"
      by (auto simp: sublist_def)
    from d [OF this] that show False by blast
  qed
  from a quoted_latex_chars [of latex] b d e show ?thesis by blast
qed

theorem escaped_span_properties_witness:
  "clean_latex (''x '' @ ex_latex_all) ex_latex_all
     = ''x $a'' @ [BSL] @ ''_b'' @ [BSL] @ ''*c'' @ [BSL] @ ''newlined$''
   \<and> quoted_latex ex_latex_all = ''$a'' @ [BSL] @ ''_b'' @ [BSL] @ ''*c'' @ [BSL] @ ''newlined$''
   \<and> last (''$a'' @ [BSL]) = BSL
   \<and> \<not> sublist [BSL, BSL] (quoted_latex ex_latex_all)
   \<and> sublist [BSL, CHR ''_''] ex_latex_quoted"
proof -
  note t1 = escaped_span_properties [of ex_latex_all "''x '' @ ex_latex_all"]
  note t2 = escaped_span_properties [of ex_latex_quoted "[]"]
  have f0: "quoted_latex ex_latex_all = ''$a'' @ [BSL] @ ''_b'' @ [BSL] @ ''*c'' @ [BSL] @ ''newlined$''"
    using ex_quoted_all(1) by simp
  from t1 have f1: "last (''$a'' @ [BSL]) = BSL"
    using ex_quoted_all(1) by blast
  from t1 have f2: "\<not> sublist [BSL, BSL] (quoted_latex ex_latex_all)"
    using ex_quoted_all(6,7) by blast
  from t2 have "\<exists>c vs'. ''_b$'' = c # vs' \<and> (c = CHR ''_'' \<or> c = CHR ''*'')
                  \<and> sublist [BSL, c] ex_latex_quoted"
    using ex_quoted_all(2) by blast
  then have f3: "sublist [BSL, CHR ''_''] ex_latex_quoted" by auto
  show ?thesis by (intro conjI) (rule ex_quoted_all(4) f0 f1 f2 f3)+
qed

text \<open>
  Claim C2 as stated fails: for the LaTeX string \<^verbatim>\<open>$a\_b$\<close> (one backslash before the
  underscore) the result is \<^verbatim>\<open>$a\\_b$\<close>, which contains two adjacent backslashes.  The
  comment in \<^verbatim>\<open>_clean_latex\<close> names this case.
\<close>

theorem double_backslash_counterexample:
  "clean_latex (''$a'' @ [BSL] @ ''_b$'') (''$a'' @ [BSL] @ ''_b$'') = ''$a'' @ [BSL, BSL] @ ''_b$''
   \<and> sublist [BSL, BSL] (clean_latex (''$a'' @ [BSL] @ ''_b$'') (''$a'' @ [BSL] @ ''_b$''))"
  using ex_quoted_all(3,5) by (simp add: ex_latex_quoted_def)

text \<open>
  Claim C3, amended.  For a non-empty LaTeX string, \<open>clean_latex\<close> replaces, from left to
  right, every occurrence that does not overlap an occurrence already replaced, each by
  the same \<open>quoted_latex\<close>: the text is its pieces joined by the LaTeX string, and the
  result is the same pieces joined by the quoted string.  If no two occurrences overlap,
  all \<open>n\<close> occurrences are replaced (there are \<open>n + 1\<close> pieces).
\<close>

theorem all_separate_occurrences_replaced:
  assumes "latex \<noteq> []"
  shows "text = str_join latex (str_split text latex)
       \<and> clean_latex text latex = str_join (quoted_latex latex) (str_split text latex)
       \<and> (non_overlapping text latex \<longrightarrow>
            length (str_split text latex) = Suc (length (occurrences text latex)))"
  using assms
  by (simp add: str_join_str_split clean_latex_def str_replace_split
      length_str_split_non_overlapping)

theorem all_separate_occurrences_replaced_witness:
  "clean_latex ''a $x_1$ b $x_1$'' ''$x_1$''
     = ''a '' @ (''$x'' @ [BSL] @ ''_1$'') @ '' b '' @ (''$x'' @ [BSL] @ ''_1$'')
   \<and> length (str_split ''a $x_1$ b $x_1$'' ''$x_1$'') = 3
   \<and> occurrences ''a $x_1$ b $x_1$'' ''$x_1$'' = [2, 10]"
proof -
  have ne: "''$x_1$'' \<noteq> []" by simp
  have no: "non_overlapping ''a $x_1$ b $x_1$'' ''$x_1$''"
    unfolding non_overlapping_def ex_twice by simp
  from all_separate_occurrences_replaced [OF ne, of "''a $x_1$ b $x_1$''"] no
  show ?thesis unfolding ex_twice by simp
qed

text \<open>
  Claim C3 as stated fails where occurrences overlap: \<^verbatim>\<open>$_$\<close> occurs in \<^verbatim>\<open>$_$_$\<close> at
  positions 0 and 2, and only the first occurrence is replaced.
\<close>

theorem overlapping_occurrence_counterexample:
  "occurrences ''$_$_$'' ''$_$'' = [0, 2]
   \<and> clean_latex ''$_$_$'' ''$_$'' = ''$'' @ [BSL] @ ''_$'' @ ''_$''
   \<and> quoted_latex ''$_$'' = ''$'' @ [BSL] @ ''_$''"
  by code_simp

text \<open>
  Claim C9.  \<open>clean_latex\<close> changes only occurrences of the LaTeX string: the text is a
  list of pieces joined by the LaTeX string and the result is the same pieces, unchanged
  and in the same order, joined by the quoted string; the characters of the text outside
  every occurrence form a subsequence of the result; and a text in which the LaTeX string
  does not occur is returned unchanged.
\<close>

theorem escape_changes_only_occurrences:
  "(latex \<noteq> [] \<longrightarrow>
      text = str_join latex (str_split text latex)
      \<and> clean_latex text latex = str_join (quoted_latex latex) (str_split text latex))
   \<and> subseq (outside text latex) (clean_latex text latex)
   \<and> (\<not> sublist latex text \<longrightarrow> clean_latex text latex = text)"
proof (cases "latex = []")
  case True
  then have "clean_latex text latex = text"
    by (simp add: clean_latex_def quoted_latex_Nil str_replace_empty_empty)
  with True show ?thesis by (simp add: outside_empty_latex)
next
  case False
  have j: "text = str_join latex (str_split text latex)"
    using False by (simp add: str_join_str_split)
  have c: "clean_latex text latex = str_join (quoted_latex latex) (str_split text latex)"
    using False by (simp add: clean_latex_def str_replace_split)
  have "subseq (outside text latex) (concat (str_split text latex))"
    by (rule outside_subseq_pieces [OF False])
  moreover have "subseq (concat (str_split text latex)) (clean_latex text latex)"
    unfolding c by (rule subseq_concat_str_join)
  ultimately have s: "subseq (outside text latex) (clean_latex text latex)"
    by (rule subseq_order.trans)
  have a: "\<not> sublist latex text \<longrightarrow> clean_latex text latex = text"
    by (simp add: clean_latex_def str_replace_absent)
  from j c s a show ?thesis by blast
qed

theorem escape_changes_only_occurrences_witness:
  "clean_latex ''text $a_b$ end'' ''$a_b$'' = ''text $a'' @ [BSL] @ ''_b$ end''
   \<and> ''text $a_b$ end'' = str_join ''$a_b$'' [''text '', '' end'']
   \<and> subseq ''text  end'' (''text $a'' @ [BSL] @ ''_b$ end'')
   \<and> clean_latex ''text $a_b$ end'' ''$z$'' = ''text $a_b$ end''"
proof -
  note t1 = escape_changes_only_occurrences [of "''$a_b$''" "''text $a_b$ end''", unfolded ex_escape]
  note t2 = escape_changes_only_occurrences [of "''$z$''" "''text $a_b$ end''", unfolded ex_escape]
  from t1 have f1: "''text $a_b$ end'' = str_join ''$a_b$'' [''text '', '' end'']"
    and f2: "subseq ''text  end'' (''text $a'' @ [BSL] @ ''_b$ end'')"
    by simp_all
  from t2 have f3: "clean_latex ''text $a_b$ end'' ''$z$'' = ''text $a_b$ end''"
    by simp
  show ?thesis by (intro conjI) (rule ex_escape(1) f1 f2 f3)+
qed

section \<open>Metadata defaults\<close>

text \<open>
  Claim C4, amended.  A \<^verbatim>\<open>date\<close> or \<^verbatim>\<open>title\<close> that is already set to a true value, and a
  \<^verbatim>\<open>draft\<close> that is already set to any value, come back unchanged.  A \<^verbatim>\<open>date\<close> or
  \<^verbatim>\<open>title\<close> that is set to a false value (the empty string, \<^verbatim>\<open>None\<close>, \<^verbatim>\<open>False\<close>, zero,
  an empty list or mapping) is overwritten by the default, because the code tests
  \<^verbatim>\<open>hugo.get(key) or default\<close>.
\<close>

theorem existing_metadata_kept:
  assumes "getmtime env (path_join (path res) (name res @ ''.ipynb'')) = Some ts"
    and "preprocess_cells (cells nb) = Inr cs"
  shows "(\<forall>v. hugo_of nb ''date'' = Some v \<and> truthy v \<longrightarrow> hugo_after env nb res ''date'' = Some v)
       \<and> (\<forall>v. hugo_of nb ''title'' = Some v \<and> truthy v \<longrightarrow> hugo_after env nb res ''title'' = Some v)
       \<and> (\<forall>v. hugo_of nb ''draft'' = Some v \<longrightarrow> hugo_after env nb res ''draft'' = Some v)
       \<and> (\<forall>v. hugo_of nb ''date'' = Some v \<and> \<not> truthy v \<longrightarrow>
             hugo_after env nb res ''date'' = Some (PStr (time_format_hugo env ts)))
       \<and> (\<forall>v. hugo_of nb ''title'' = Some v \<and> \<not> truthy v \<longrightarrow>
             hugo_after env nb res ''title'' = Some (PStr (default_title env (name res))))"
  by (simp add: hugo_after_eq [OF assms] dict_get_default_def dict_get_def py_or_def)

theorem existing_metadata_kept_witness:
  "hugo_after ex_env ex_nb_set ex_res ''date'' = Some (PStr ''2018-07-04T09:00:00+00:00'')
   \<and> hugo_after ex_env ex_nb_set ex_res ''title'' = Some (PStr ''Fixed'')
   \<and> hugo_after ex_env ex_nb_set ex_res ''draft'' = Some (PBool False)
   \<and> hugo_after ex_env ex_nb_empty_date ex_res ''date'' = Some (PStr ''2019-03-01T12:00:00+01:00'')
   \<and> hugo_after ex_env ex_nb_empty_date ex_res ''title'' = Some (PStr (default_title ex_env ''my_first_post''))"
proof -
  have c: "preprocess_cells (cells ex_nb_set) = Inr []"
    "preprocess_cells (cells ex_nb_empty_date) = Inr []"
    by (simp_all add: ex_nb_set_def ex_nb_empty_date_def)
  have n: "name ex_res = ''my_first_post''" by (simp add: ex_res_def)
  show ?thesis
    using existing_metadata_kept [OF ex_getmtime c(1)] existing_metadata_kept [OF ex_getmtime c(2)]
    by (simp add: hugo_of_def ex_nb_set_def ex_nb_empty_date_def ex_time n)
qed

text \<open>
  Claim C4 as stated fails: a notebook whose \<^verbatim>\<open>date\<close> is set to the empty string comes
  back with the formatted modification time in its place.
\<close>

theorem existing_date_overwritten_counterexample:
  "hugo_of ex_nb_empty_date ''date'' = Some (PStr [])
   \<and> hugo_after ex_env ex_nb_empty_date ex_res ''date'' = Some (PStr ''2019-03-01T12:00:00+01:00'')"
proof -
  have c: "preprocess_cells (cells ex_nb_empty_date) = Inr []"
    by (simp add: ex_nb_empty_date_def)
  show ?thesis
    unfolding hugo_after_eq [OF ex_getmtime c]
    by (simp add: hugo_of_def ex_nb_empty_date_def ex_time dict_get_def py_or_def)
qed

text \<open>
  Claim C7, amended.  Where \<^verbatim>\<open>hugo.title\<close> is absent or false, the title is derived from
  the resource name by splitting it on the underscore, applying \<^verbatim>\<open>str.capitalize\<close> to each
  segment, and joining the segments with single spaces.  For a name of ASCII characters
  that is: the first character of each segment upper-cased and the rest of the segment
  lower-cased.  (Outside ASCII \<^verbatim>\<open>str.capitalize\<close> follows the case mapping of Unicode.)
\<close>

theorem title_default:
  assumes "getmtime env (path_join (path res) (name res @ ''.ipynb'')) = Some ts"
    and "preprocess_cells (cells nb) = Inr cs"
    and "\<not> truthy (dict_get (hugo_of nb) ''title'')"
  shows "hugo_after env nb res ''title'' =
           Some (PStr (str_join '' '' (map (capitalize env) (str_split (name res) ''_''))))
       \<and> (list_all is_ascii (name res) \<longrightarrow>
            hugo_after env nb res ''title'' =
              Some (PStr (str_join '' ''
                (map (\<lambda>seg. map ascii_upper (take 1 seg) @ map ascii_lower (drop 1 seg))
                     (str_split (name res) ''_'')))))"
proof -
  have t: "hugo_after env nb res ''title'' =
           Some (PStr (str_join '' '' (map (capitalize env) (str_split (name res) ''_''))))"
    using assms(3)
    by (simp add: hugo_after_eq [OF assms(1,2)] py_or_def default_title_def)
  have "map (capitalize env) (str_split (name res) ''_'') =
        map (\<lambda>seg. map ascii_upper (take 1 seg) @ map ascii_lower (drop 1 seg))
            (str_split (name res) ''_'')"
    if a: "list_all is_ascii (name res)"
  proof (rule map_cong [OF refl])
    fix seg assume "seg \<in> set (str_split (name res) ''_'')"
    then have "set seg \<subseteq> set (name res)"
      using str_split_piece_sublist set_mono_sublist by blast
    with a have "list_all is_ascii seg" by (auto simp: list_all_iff)
    then show "capitalize env seg = map ascii_upper (take 1 seg) @ map ascii_lower (drop 1 seg)"
      by (rule capitalize_ascii)
  qed
  then have m: "list_all is_ascii (name res) \<Longrightarrow>
      str_join '' '' (map (capitalize env) (str_split (name res) ''_'')) =
      str_join '' '' (map (\<lambda>seg. map ascii_upper (take 1 seg) @ map ascii_lower (drop 1 seg))
                          (str_split (name res) ''_''))"
    by (simp only:)
  show ?thesis
  proof (intro conjI impI)
    show "hugo_after env nb res ''title'' =
           Some (PStr (str_join '' '' (map (capitalize env) (str_split (name res) ''_''))))"
      by (rule t)
  next
    assume "list_all is_ascii (name res)"
    from m [OF this] t show "hugo_after env nb res ''title'' =
              Some (PStr (str_join '' ''
                (map (\<lambda>seg. map ascii_upper (take 1 seg) @ map ascii_lower (drop 1 seg))
                     (str_split (name res) ''_''))))"
      by (simp only:)
  qed
qed

text \<open>The name \<^verbatim>\<open>my_first_post\<close> yields the title \<^verbatim>\<open>My First Post\<close>.\<close>

theorem title_default_witness:
  "hugo_after ex_env \<lparr>hugo = None, cells = []\<rparr> ex_res ''title'' = Some (PStr ''My First Post'')"
proof -
  have c: "preprocess_cells (cells \<lparr>hugo = None, cells = []\<rparr>) = Inr []" by simp
  have f: "\<not> truthy (dict_get (hugo_of \<lparr>hugo = None, cells = []\<rparr>) ''title'')"
    by (simp add: hugo_of_def dict_get_def)
  have n: "name ex_res = ''my_first_post''" by (simp add: ex_res_def)
  have a: "list_all is_ascii ''my_first_post''" by code_simp
  have e: "str_join '' '' (map (\<lambda>seg. map ascii_upper (take 1 seg) @ map ascii_lower (drop 1 seg))
                  (str_split ''my_first_post'' ''_'')) = ''My First Post''"
    by code_simp
  from title_default [where res = ex_res, OF ex_getmtime c f] a
  have "hugo_after ex_env \<lparr>hugo = None, cells = []\<rparr> ex_res ''title'' =
          Some (PStr (str_join '' ''
                (map (\<lambda>seg. map ascii_upper (take 1 seg) @ map ascii_lower (drop 1 seg))
                     (str_split ''my_first_post'' ''_''))))"
    unfolding n by blast
  then show ?thesis by (simp only: e)
qed

text \<open>
  Claim C7 as stated fails: capitalising only the first letter of each segment of
  \<^verbatim>\<open>my_FIRST_post\<close> gives \<^verbatim>\<open>My FIRST Post\<close>, and the code returns \<^verbatim>\<open>My First Post\<close>.
\<close>

theorem title_default_counterexample:
  "hugo_after ex_env \<lparr>hugo = None, cells = []\<rparr> \<lparr>path = ''posts'', name = ''my_FIRST_post''\<rparr> ''title''
     = Some (PStr ''My First Post'')
   \<and> title_as_specified (map ascii_upper) ''my_FIRST_post'' = ''My FIRST Post''"
proof -
  have c: "preprocess_cells (cells \<lparr>hugo = None, cells = []\<rparr>) = Inr []" by simp
  have d: "default_title ex_env ''my_FIRST_post'' = ''My First Post''"
    by (simp add: default_title_def capitalize_def) code_simp
  have t: "title_as_specified (map ascii_upper) ''my_FIRST_post'' = ''My FIRST Post''" by code_simp
  show ?thesis
    by (simp add: hugo_after_eq [OF ex_getmtime c] hugo_of_def dict_get_def py_or_def d t)
qed

text \<open>
  Claim C8.  The default of \<^verbatim>\<open>draft\<close> tests presence, not truth: where \<^verbatim>\<open>hugo.draft\<close> is
  absent, \<open>preprocess\<close> returns with it set to \<^verbatim>\<open>True\<close>, and where it is present with the
  value \<^verbatim>\<open>False\<close> it is still \<^verbatim>\<open>False\<close> afterwards.  (\<open>preprocess\<close> returns whenever the
  notebook file has a modification time and no cell raises.)
\<close>

theorem draft_default_is_presence_check:
  assumes "getmtime env (path_join (path res) (name res @ ''.ipynb'')) = Some ts"
    and "preprocess_cells (cells nb) = Inr cs"
  shows "(hugo_of nb ''draft'' = None \<longrightarrow> hugo_after env nb res ''draft'' = Some (PBool True))
       \<and> (hugo_of nb ''draft'' = Some (PBool False) \<longrightarrow>
            hugo_after env nb res ''draft'' = Some (PBool False))"
  by (simp add: hugo_after_eq [OF assms] dict_get_default_def)

theorem draft_default_is_presence_check_witness:
  "hugo_after ex_env \<lparr>hugo = None, cells = []\<rparr> ex_res ''draft'' = Some (PBool True)
   \<and> hugo_after ex_env \<lparr>hugo = Some [''draft'' \<mapsto> PBool False], cells = []\<rparr> ex_res ''draft''
       = Some (PBool False)"
proof -
  have c: "preprocess_cells (cells \<lparr>hugo = None, cells = []\<rparr>) = Inr []"
    "preprocess_cells (cells \<lparr>hugo = Some [''draft'' \<mapsto> PBool False], cells = []\<rparr>) = Inr []"
    by simp_all
  show ?thesis
    using draft_default_is_presence_check [OF ex_getmtime c(1)]
      draft_default_is_presence_check [OF ex_getmtime c(2)]
    by (simp add: hugo_of_def)
qed

section \<open>Code cells\<close>

text \<open>
  Claim C6.  In a code cell whose \<^verbatim>\<open>text/latex\<close> payloads are strings, processing the cell
  returns, and every such payload \<open>p\<close> is replaced by \<open>clean_latex p p\<close>, the payload
  escaped against itself, which is the fully escaped string \<open>quoted_latex p\<close>; the
  other entries of the output are as before.  The witness takes the single output
  \<^verbatim>\<open>{data: {"text/latex": "$x_y$"}}\<close>, whose payload becomes \<^verbatim>\<open>$x\_y$\<close>.
\<close>

theorem code_cell_latex_payload_escaped:
  assumes "\<forall>out \<in> set outs. \<forall>d v. data out = Some d \<and> d ''text/latex'' = Some v \<longrightarrow> (\<exists>p. v = PStr p)"
  shows "\<exists>outs'. preprocess_cell (Code (Some outs)) = Inr (Code (Some outs'))
          \<and> length outs' = length outs
          \<and> (\<forall>i < length outs. \<forall>d p.
                data (outs ! i) = Some d \<and> d ''text/latex'' = Some (PStr p) \<longrightarrow>
                data (outs' ! i) = Some (d(''text/latex'' \<mapsto> PStr (quoted_latex p)))
                \<and> clean_latex p p = quoted_latex p)"
proof -
  let ?outs' = "map (\<lambda>out. projr (clean_output out)) outs"
  have all: "\<forall>out \<in> set outs. \<exists>out'. clean_output out = Inr out'"
    using assms clean_output_no_latex by blast
  have run: "preprocess_cell (Code (Some outs)) = Inr (Code (Some ?outs'))"
    by (simp add: clean_outputs_map [OF all])
  have "data (?outs' ! i) = Some (d(''text/latex'' \<mapsto> PStr (quoted_latex p)))"
    if "i < length outs" "data (outs ! i) = Some d" "d ''text/latex'' = Some (PStr p)" for i d p
    using that by (simp add: clean_output_string)
  with run show ?thesis by (auto simp: clean_latex_self)
qed

theorem code_cell_latex_payload_escaped_witness:
  "\<exists>outs'. preprocess_cell (Code (Some [ex_output])) = Inr (Code (Some outs'))
     \<and> length outs' = 1
     \<and> data (outs' ! 0) = Some [''text/latex'' \<mapsto> PStr (''$x'' @ [BSL] @ ''_y$'')]"
proof -
  have h: "\<forall>out \<in> set [ex_output]. \<forall>d v.
             data out = Some d \<and> d ''text/latex'' = Some v \<longrightarrow> (\<exists>p. v = PStr p)"
    by (auto simp: ex_output_def split: if_splits)
  from code_cell_latex_payload_escaped [OF h]
  obtain outs' where o: "preprocess_cell (Code (Some [ex_output])) = Inr (Code (Some outs'))"
    "length outs' = length [ex_output]"
    "\<forall>i < length [ex_output]. \<forall>d p.
        data ([ex_output] ! i) = Some d \<and> d ''text/latex'' = Some (PStr p) \<longrightarrow>
        data (outs' ! i) = Some (d(''text/latex'' \<mapsto> PStr (quoted_latex p)))
        \<and> clean_latex p p = quoted_latex p"
    by blast
  from o(3) have "data (outs' ! 0) =
      Some ([''text/latex'' \<mapsto> PStr ''$x_y$''](''text/latex'' \<mapsto> PStr (quoted_latex ''$x_y$'')))"
    by (simp add: ex_output_def)
  then have "data (outs' ! 0) = Some [''text/latex'' \<mapsto> PStr (''$x'' @ [BSL] @ ''_y$'')]"
    by (simp only: ex_quoted fun_upd_upd)
  with o(1,2) show ?thesis by auto
qed

end
